theory Spec2Isabelle
  imports Complex_Main "HOL-Library.Word"
begin

unbundle bit_operations_syntax

section \<open>JavaScript values and strings\<close>

text \<open>
  The content script is JavaScript. A JavaScript string is modelled as a \<^typ>\<open>string\<close>
  whose characters are the UTF-16 code units U+0000 .. U+00FF; \<open>substring\<close> and
  \<open>length\<close> count code units, as the source does. A value that may be
  \<open>undefined\<close> where the source expects a string is a \<^typ>\<open>string option\<close>.
\<close>

datatype jsval =
    JUndefined
  | JNull
  | JBool bool
  | JNum real
  | JStr string
  | JArr "jsval list"
  | JObj "(string \<times> jsval) list"

text \<open>ToBoolean: what \<open>if (x)\<close>, \<open>!x\<close>, \<open>x || y\<close> and \<open>x && y\<close> test.\<close>

fun truthy :: "jsval \<Rightarrow> bool" where
  "truthy JUndefined = False"
| "truthy JNull = False"
| "truthy (JBool b) = b"
| "truthy (JNum r) = (r \<noteq> 0)"
| "truthy (JStr s) = (s \<noteq> [])"
| "truthy (JArr xs) = True"
| "truthy (JObj kvs) = True"

text \<open>\<open>x || d\<close> for a string (or undefined) \<open>x\<close> and a string \<open>d\<close>.\<close>

definition strOr :: "string option \<Rightarrow> string \<Rightarrow> string" where
  "strOr x d = (case x of None \<Rightarrow> d | Some s \<Rightarrow> if s = [] then d else s)"

text \<open>\<open>a || b\<close> for two results of \<open>querySelector\<close> (an element or null).\<close>

definition elOr :: "'a option \<Rightarrow> 'a option \<Rightarrow> 'a option" where
  "elOr a b = (case a of Some e \<Rightarrow> Some e | None \<Rightarrow> b)"

text \<open>White space and line terminators among the code units up to U+00FF.\<close>

definition isJsSpace :: "char \<Rightarrow> bool" where
  "isJsSpace c = ((of_char c :: nat) \<in> {9, 10, 11, 12, 13, 32, 160})"

definition trim :: "string \<Rightarrow> string" where
  "trim s = rev (dropWhile isJsSpace (rev (dropWhile isJsSpace s)))"

definition substring0 :: "nat \<Rightarrow> string \<Rightarrow> string" where
  "substring0 n s = take n s"

definition padStart :: "nat \<Rightarrow> char \<Rightarrow> string \<Rightarrow> string" where
  "padStart n c s = replicate (n - length s) c @ s"

text \<open>A template literal prints an undefined argument as the word \<open>undefined\<close>.\<close>

definition interpolate :: "string option \<Rightarrow> string" where
  "interpolate x = (case x of None \<Rightarrow> ''undefined'' | Some s \<Rightarrow> s)"

section \<open>Content hasher\<close>

subsection \<open>SHA-256 (\<open>crypto.subtle.digest\<close>) and \<open>TextEncoder\<close>\<close>

text \<open>
  The digest is the platform's. It is written out here, so that keys can be computed
  and compared. The mail page is a secure context, where \<open>crypto.subtle\<close> is
  present and the digest of a byte array does not fail.
\<close>

type_synonym u8 = "8 word"
type_synonym u32 = "32 word"

text \<open>UTF-8 of a code unit up to U+00FF: one byte below U+0080, two bytes from there.\<close>

definition utf8_unit :: "char \<Rightarrow> u8 list" where
  "utf8_unit c =
     (let n = (of_char c :: nat)
      in if n < 128 then [of_nat n]
         else [0xC0 OR of_nat (n div 64), 0x80 OR of_nat (n mod 64)])"

definition textEncode :: "string \<Rightarrow> u8 list" where
  "textEncode s = concat (map utf8_unit s)"

definition rotr :: "nat \<Rightarrow> u32 \<Rightarrow> u32" where
  "rotr n x = (drop_bit n x) OR (push_bit (32 - n) x)"

definition Ch :: "u32 \<Rightarrow> u32 \<Rightarrow> u32 \<Rightarrow> u32" where
  "Ch x y z = (x AND y) XOR (NOT x AND z)"

definition Maj :: "u32 \<Rightarrow> u32 \<Rightarrow> u32 \<Rightarrow> u32" where
  "Maj x y z = (x AND y) XOR (x AND z) XOR (y AND z)"

definition bsig0 :: "u32 \<Rightarrow> u32" where
  "bsig0 x = rotr 2 x XOR rotr 13 x XOR rotr 22 x"

definition bsig1 :: "u32 \<Rightarrow> u32" where
  "bsig1 x = rotr 6 x XOR rotr 11 x XOR rotr 25 x"

definition ssig0 :: "u32 \<Rightarrow> u32" where
  "ssig0 x = rotr 7 x XOR rotr 18 x XOR drop_bit 3 x"

definition ssig1 :: "u32 \<Rightarrow> u32" where
  "ssig1 x = rotr 17 x XOR rotr 19 x XOR drop_bit 10 x"

text \<open>The 64 round constants of the standard, in decimal.\<close>

definition sha256_K :: "u32 list" where
  "sha256_K = [
    1116352408, 1899447441, 3049323471, 3921009573, 961987163, 1508970993,
    2453635748, 2870763221, 3624381080, 310598401, 607225278, 1426881987,
    1925078388, 2162078206, 2614888103, 3248222580, 3835390401, 4022224774,
    264347078, 604807628, 770255983, 1249150122, 1555081692, 1996064986,
    2554220882, 2821834349, 2952996808, 3210313671, 3336571891, 3584528711,
    113926993, 338241895, 666307205, 773529912, 1294757372, 1396182291,
    1695183700, 1986661051, 2177026350, 2456956037, 2730485921, 2820302411,
    3259730800, 3345764771, 3516065817, 3600352804, 4094571909, 275423344,
    430227734, 506948616, 659060556, 883997877, 958139571, 1322822218,
    1537002063, 1747873779, 1955562222, 2024104815, 2227730452, 2361852424,
    2428436474, 2756734187, 3204031479, 3329325298]"

type_synonym hstate = "u32 \<times> u32 \<times> u32 \<times> u32 \<times> u32 \<times> u32 \<times> u32 \<times> u32"

definition sha256_H0 :: hstate where
  "sha256_H0 =
     (1779033703, 3144134277, 1013904242, 2773480762,
      1359893119, 2600822924, 528734635, 1541459225)"

definition be32 :: "u8 list \<Rightarrow> u32" where
  "be32 bs = foldl (\<lambda>acc b. push_bit 8 acc OR ucast b) 0 bs"

fun chunks :: "nat \<Rightarrow> 'a list \<Rightarrow> 'a list list" where
  "chunks 0 xs = []"
| "chunks (Suc n) [] = []"
| "chunks (Suc n) (x # xs) = take (Suc n) (x # xs) # chunks (Suc n) (drop n xs)"

text \<open>Padding: the byte 0x80, zero bytes up to 56 modulo 64, the bit length on 64 bits.\<close>

definition sha256_pad :: "u8 list \<Rightarrow> u8 list" where
  "sha256_pad m =
     (let l = length m;
          k = (64 - (l + 9) mod 64) mod 64;
          bits = (word_of_nat (8 * l) :: 64 word)
      in m @ [0x80] @ replicate k 0
           @ map (\<lambda>i. ucast (drop_bit (8 * (7 - i)) bits)) [0..<8])"

text \<open>The message schedule, newest word first.\<close>

fun schedule :: "nat \<Rightarrow> u32 list \<Rightarrow> u32 list" where
  "schedule 0 ws = ws"
| "schedule (Suc n) ws =
     schedule n ((ssig1 (ws ! 1) + ws ! 6 + ssig0 (ws ! 14) + ws ! 15) # ws)"

fun sha_round :: "hstate \<Rightarrow> u32 \<times> u32 \<Rightarrow> hstate" where
  "sha_round (a, b, c, d, e, f, g, h) (k, w) =
     (let t1 = h + bsig1 e + Ch e f g + k + w;
          t2 = bsig0 a + Maj a b c
      in (t1 + t2, a, b, c, d + t1, e, f, g))"

fun hadd :: "hstate \<Rightarrow> hstate \<Rightarrow> hstate" where
  "hadd (a, b, c, d, e, f, g, h) (a', b', c', d', e', f', g', h') =
     (a + a', b + b', c + c', d + d', e + e', f + f', g + g', h + h')"

definition compress :: "hstate \<Rightarrow> u8 list \<Rightarrow> hstate" where
  "compress hs block =
     (let w16 = map be32 (chunks 4 block);
          w = rev (schedule 48 (rev w16))
      in hadd hs (foldl sha_round hs (zip sha256_K w)))"

definition word_bytes :: "u32 \<Rightarrow> u8 list" where
  "word_bytes w = [ucast (drop_bit 24 w), ucast (drop_bit 16 w), ucast (drop_bit 8 w), ucast w]"

fun hbytes :: "hstate \<Rightarrow> u8 list" where
  "hbytes (a, b, c, d, e, f, g, h) =
     word_bytes a @ word_bytes b @ word_bytes c @ word_bytes d @
     word_bytes e @ word_bytes f @ word_bytes g @ word_bytes h"

definition sha256 :: "u8 list \<Rightarrow> u8 list" where
  "sha256 m = hbytes (foldl compress sha256_H0 (chunks 64 (sha256_pad m)))"

subsection \<open>\<open>computeSHA256Hex\<close>\<close>

definition hexDigit :: "nat \<Rightarrow> char" where
  "hexDigit d = ''0123456789abcdef'' ! d"

text \<open>\<open>Number.prototype.toString(16)\<close> on an element of a \<open>Uint8Array\<close>.\<close>

definition toString16 :: "u8 \<Rightarrow> string" where
  "toString16 b =
     (let n = unat b
      in if n < 16 then [hexDigit n] else [hexDigit (n div 16), hexDigit (n mod 16)])"

definition computeSHA256Hex :: "string \<Rightarrow> string" where
  "computeSHA256Hex input =
     (let data = textEncode input;
          bytes = sha256 data
      in foldl (\<lambda>hex b. hex @ padStart 2 (CHR ''0'') (toString16 b)) [] bytes)"

subsection \<open>The page (\<open>document.querySelector\<close>)\<close>

text \<open>
  An element, as far as the source reads it: its attributes and its text content.
  The page is the answers of the six selectors the key computation queries;
  \<open>dom_fault\<close> stands for a query that throws.
\<close>

record element =
  attrs :: "string \<rightharpoonup> string"
  textContent :: "string option"

record dom =
  q_main_message :: "element option"
  q_message :: "element option"
  q_main_time :: "element option"
  q_time :: "element option"
  q_g3_span :: "element option"
  q_gH_title :: "element option"
  dom_fault :: bool

definition getOpenMessageIdFromDOM :: "dom \<Rightarrow> string" where
  "getOpenMessageIdFromDOM d =
     (if dom_fault d then []
      else let el = elOr (q_main_message d) (q_message d);
               mid = (case el of None \<Rightarrow> None | Some e \<Rightarrow> attrs e ''data-message-id'')
           in strOr mid [])"

definition extractOpenEmailTimeFromDOM :: "dom \<Rightarrow> string" where
  "extractOpenEmailTimeFromDOM d =
     (if dom_fault d then []
      else case elOr (q_main_time d) (q_time d) of
             Some timeEl \<Rightarrow>
               strOr (attrs timeEl ''datetime'') (trim (strOr (textContent timeEl) []))
           | None \<Rightarrow>
              (case elOr (q_g3_span d) (q_gH_title d) of
                 Some alt \<Rightarrow> strOr (attrs alt ''title'') (trim (strOr (textContent alt) []))
               | None \<Rightarrow> []))"

subsection \<open>\<open>computeSummaryId\<close>\<close>

definition typeofString :: "jsval \<Rightarrow> bool" where
  "typeofString v = (case v of JStr s \<Rightarrow> True | _ \<Rightarrow> False)"

fun stringOf :: "jsval \<Rightarrow> string" where
  "stringOf (JStr s) = s"
| "stringOf v = []"

definition computeSummaryId ::
  "jsval \<Rightarrow> string option \<Rightarrow> string option \<Rightarrow> string option \<Rightarrow> dom \<Rightarrow> string" where
  "computeSummaryId explicitId subject body time d =
     (if truthy explicitId \<and> typeofString explicitId then stringOf explicitId
      else let mid = getOpenMessageIdFromDOM d
           in if mid \<noteq> [] then ''mid:'' @ mid
              else let first50 = substring0 50 (strOr body []);
                       t = strOr time (strOr (Some (extractOpenEmailTimeFromDOM d)) []);
                       composite = strOr subject [] @ ''|'' @ t @ ''|'' @ first50;
                       hex = computeSHA256Hex composite
                   in ''hash:'' @ hex)"

section \<open>Backend client\<close>

datatype error =
    NetworkError
  | ApiError nat
  | JsonSyntaxError
  | TypeError
  | NoContentGenerated
  | StorageError

text \<open>
  What \<open>fetch\<close> resolves to: a rejection (the network call failed), or a response
  with its status and its body as \<open>response.json()\<close> parses it (\<open>None\<close> when the body
  is not JSON).
\<close>

datatype fetchOutcome =
    FetchFailed
  | FetchResponse nat "jsval option"

text \<open>
  A request, as far as it varies: the prompt and the token budget. The address, the
  key and the sampling parameters are the same in every call.
\<close>

record request =
  req_prompt :: string
  req_maxOutputTokens :: nat

definition geminiRequest :: "string \<Rightarrow> nat option \<Rightarrow> request" where
  "geminiRequest prompt maxTokens =
     \<lparr> req_prompt = prompt,
       req_maxOutputTokens = (case maxTokens of None \<Rightarrow> 200 | Some n \<Rightarrow> n) \<rparr>"

definition response_ok :: "nat \<Rightarrow> bool" where
  "response_ok status = (200 \<le> status \<and> status \<le> 299)"

text \<open>
  Property access \<open>v.name\<close> on a value that is neither null nor undefined, for the
  names the source reads (none of them is a built-in property of a string, a number,
  a boolean or an array), and the index access \<open>v[0]\<close>.
\<close>

fun getField :: "string \<Rightarrow> jsval \<Rightarrow> jsval" where
  "getField name (JObj kvs) = (case map_of kvs name of Some v \<Rightarrow> v | None \<Rightarrow> JUndefined)"
| "getField name v = JUndefined"

fun getIndex0 :: "jsval \<Rightarrow> jsval" where
  "getIndex0 (JArr xs) = (case xs of [] \<Rightarrow> JUndefined | x # rest \<Rightarrow> x)"
| "getIndex0 (JStr cs) = (case cs of [] \<Rightarrow> JUndefined | c # rest \<Rightarrow> JStr [c])"
| "getIndex0 (JObj kvs) = (case map_of kvs ''0'' of Some v \<Rightarrow> v | None \<Rightarrow> JUndefined)"
| "getIndex0 v = JUndefined"

text \<open>Optional chaining \<open>v?.name\<close>, \<open>v?.[0]\<close>.\<close>

definition optChain :: "(jsval \<Rightarrow> jsval) \<Rightarrow> jsval \<Rightarrow> jsval" where
  "optChain f v = (if v = JUndefined \<or> v = JNull then JUndefined else f v)"

text \<open>\<open>callGeminiAPI\<close> after the \<open>await fetch(...)\<close>.\<close>

definition handleGeminiResponse :: "fetchOutcome \<Rightarrow> error + string" where
  "handleGeminiResponse out =
     (case out of
        FetchFailed \<Rightarrow> Inl NetworkError
      | FetchResponse status body \<Rightarrow>
          if \<not> response_ok status then Inl (ApiError status)
          else (case body of
                  None \<Rightarrow> Inl JsonSyntaxError
                | Some data \<Rightarrow>
                    if data = JNull \<or> data = JUndefined then Inl TypeError
                    else let generatedText =
                               optChain (getField ''text'')
                                (optChain getIndex0
                                  (optChain (getField ''parts'')
                                    (optChain (getField ''content'')
                                      (optChain getIndex0 (getField ''candidates'' data)))))
                         in if \<not> truthy generatedText then Inl NoContentGenerated
                            else (case generatedText of
                                    JStr text \<Rightarrow> Inr (trim text)
                                  | _ \<Rightarrow> Inl TypeError)))"

text \<open>
  The network as \<open>callGeminiAPI\<close> sees it: the requests sent so far and the outcomes
  the next calls of \<open>fetch\<close> will get.
\<close>

record net =
  sent :: "request list"
  answers :: "fetchOutcome list"

definition fetch :: "request \<Rightarrow> net \<Rightarrow> fetchOutcome \<times> net" where
  "fetch r n =
     (case answers n of
        [] \<Rightarrow> (FetchFailed, n\<lparr>sent := sent n @ [r]\<rparr>)
      | out # rest \<Rightarrow> (out, n\<lparr>sent := sent n @ [r], answers := rest\<rparr>))"

definition callGeminiAPI :: "string \<Rightarrow> nat option \<Rightarrow> net \<Rightarrow> (error + string) \<times> net" where
  "callGeminiAPI prompt maxTokens n =
     (case fetch (geminiRequest prompt maxTokens) n of
        (out, n') \<Rightarrow> (handleGeminiResponse out, n'))"

text \<open>
  The contract in the specification's words: the generated content of a response
  body is the text of the first part of the content of the first candidate, when
  there is one and it is a non-empty text.
\<close>

datatype pathStep = Member string | First

fun follow :: "pathStep \<Rightarrow> jsval \<Rightarrow> jsval option" where
  "follow (Member name) (JObj kvs) = map_of kvs name"
| "follow First (JArr (x # xs)) = Some x"
| "follow First (JObj kvs) = map_of kvs ''0''"
| "follow First (JStr (c # cs)) = Some (JStr [c])"
| "follow step v = None"

fun followPath :: "pathStep list \<Rightarrow> jsval \<Rightarrow> jsval option" where
  "followPath [] v = Some v"
| "followPath (step # rest) v =
     (case follow step v of None \<Rightarrow> None | Some v' \<Rightarrow> followPath rest v')"

definition generatedContent :: "jsval \<Rightarrow> string option" where
  "generatedContent data =
     (case followPath [Member ''candidates'', First, Member ''content'',
                       Member ''parts'', First, Member ''text''] data of
        Some (JStr text) \<Rightarrow> if text = [] then None else Some text
      | _ \<Rightarrow> None)"

section \<open>Prompts\<close>

record summaryArgs =
  emailContent :: "string option"
  emailSubject :: "string option"
  emailSender :: "string option"

record summaryOptions =
  opt_id :: jsval
  opt_time :: "string option"

definition newline :: string where
  "newline = [CHR 0x0A]"

definition summaryPrompt :: "summaryArgs \<Rightarrow> string" where
  "summaryPrompt a =
     ''Summarize this email in 2-3 clear sentences, focusing on key points and any action items:''
     @ newline @ newline
     @ ''From: '' @ interpolate (emailSender a) @ newline
     @ ''Subject: '' @ interpolate (emailSubject a) @ newline @ newline
     @ ''Content: '' @ interpolate (emailContent a)"

text \<open>The request the original \<open>generateEmailSummary\<close> sends.\<close>

definition generateEmailSummary_request :: "summaryArgs \<Rightarrow> request" where
  "generateEmailSummary_request a = geminiRequest (summaryPrompt a) (Some 150)"

section \<open>Persistent cache\<close>

type_synonym cache = "string \<rightharpoonup> string"

datatype storageGet =
    GetFailed
  | GetValue "cache option"

text \<open>\<open>loadSummaryCache\<close>: the body of the \<open>try\<close>, then the function with its \<open>catch\<close>.\<close>

definition loadSummaryCache_try :: "storageGet \<Rightarrow> error + cache" where
  "loadSummaryCache_try r =
     (case r of
        GetFailed \<Rightarrow> Inl StorageError
      | GetValue slot \<Rightarrow> Inr (case slot of None \<Rightarrow> Map.empty | Some raw \<Rightarrow> raw))"

definition loadSummaryCache :: "storageGet \<Rightarrow> error + cache" where
  "loadSummaryCache r =
     (case loadSummaryCache_try r of
        Inl e \<Rightarrow> Inr Map.empty
      | Inr c \<Rightarrow> Inr c)"

definition getCachedSummary :: "cache \<Rightarrow> string \<Rightarrow> string option" where
  "getCachedSummary c key =
     (case c key of None \<Rightarrow> None | Some v \<Rightarrow> if v = [] then None else Some v)"

section \<open>Serialized task queue, single-flight tracker and orchestrator\<close>

text \<open>
  The script runs on one thread: a piece of code between two \<open>await\<close>s runs to its
  end before anything else does. The model is a machine whose steps are these pieces.
  A step is taken when a caller invokes the summary wrapper, or when something a
  suspended piece of code awaits completes: the key computation, a backend call, a
  storage read or a storage write. What the backend and the storage answer comes with
  the event. The reactions to a promise that settles are microtasks: they run before
  any other event is handled, so a settlement and the resumption of the callers that
  await the promise are one step.

  A queued task is \<open>{ id, runFn, resolve, reject }\<close> in the source. \<open>runFn\<close> closes
  over the arguments of the call that enqueued it, and \<open>resolve\<close>/\<open>reject\<close> belong
  to the promise \<open>enqueueSummaryTask\<close> returns, named here by the number of that call.
\<close>

record task =
  t_id :: string
  t_args :: summaryArgs
  t_promise :: nat

text \<open>Where a started \<open>runFn\<close> is suspended.\<close>

datatype phase =
    Fetching
  | StorageGetting string
  | StorageSetting string cache

text \<open>Where a call of \<open>generateEmailSummaryWithCacheQueue\<close> is suspended, or what it returned.\<close>

datatype caller =
    AwaitKey string summaryArgs
  | AwaitOwn string summaryArgs
  | AwaitShared nat summaryArgs
  | AwaitFallback
  | Returned "error + string"

datatype effect =
    TaskEnqueued nat
  | TaskStarted nat
  | TaskSettled nat bool
  | Delayed nat

record sys =
  summaryCache :: cache
  inFlightSummaries :: "string \<rightharpoonup> nat"
  summaryQueue :: "task list"
  isProcessingSummaryQueue :: bool
  running :: "(task \<times> phase) list"
  reactions :: "nat \<Rightarrow> nat list"
  callers :: "nat \<rightharpoonup> caller"
  nextCaller :: nat
  backendLog :: "request list"
  persisted :: "cache option"
  effects :: "effect list"

text \<open>The state the constructor and \<open>init\<close> leave, with the cache \<open>loadSummaryCache\<close> loaded.\<close>

definition initial :: "cache \<Rightarrow> cache option \<Rightarrow> sys" where
  "initial c slot =
     \<lparr> summaryCache = c, inFlightSummaries = Map.empty, summaryQueue = [],
       isProcessingSummaryQueue = False, running = [], reactions = (\<lambda>p. []),
       callers = Map.empty, nextCaller = 0, backendLog = [], persisted = slot,
       effects = [] \<rparr>"

subsection \<open>\<open>processSummaryQueue\<close> and \<open>enqueueSummaryTask\<close>\<close>

text \<open>
  \<open>processSummaryQueue\<close> up to its \<open>await task.runFn()\<close>: the run function starts
  at once and sends its backend request before it suspends.
\<close>

definition processSummaryQueue :: "sys \<Rightarrow> sys" where
  "processSummaryQueue s =
     (if isProcessingSummaryQueue s then s
      else case summaryQueue s of
             [] \<Rightarrow> s
           | task # rest \<Rightarrow>
               s\<lparr> summaryQueue := rest,
                  isProcessingSummaryQueue := True,
                  running := running s @ [(task, Fetching)],
                  backendLog := backendLog s @ [generateEmailSummary_request (t_args task)],
                  effects := effects s @ [TaskStarted (t_promise task)] \<rparr>)"

definition enqueueSummaryTask :: "task \<Rightarrow> sys \<Rightarrow> sys" where
  "enqueueSummaryTask task s =
     processSummaryQueue
       (s\<lparr> summaryQueue := summaryQueue s @ [task],
           effects := effects s @ [TaskEnqueued (t_promise task)] \<rparr>)"

subsection \<open>The wrapper after its task promise settles\<close>

text \<open>The \<open>catch\<close> of the wrapper: a direct call of the original summary method.\<close>

definition fallbackCall :: "nat \<Rightarrow> summaryArgs \<Rightarrow> sys \<Rightarrow> sys" where
  "fallbackCall c a s =
     s\<lparr> backendLog := backendLog s @ [generateEmailSummary_request a],
        callers := (callers s)(c \<mapsto> AwaitFallback) \<rparr>"

definition afterTask :: "nat \<Rightarrow> summaryArgs \<Rightarrow> error + string \<Rightarrow> sys \<Rightarrow> sys" where
  "afterTask c a outcome s =
     (case outcome of
        Inr result \<Rightarrow> s\<lparr> callers := (callers s)(c \<mapsto> Returned (Inr result)) \<rparr>
      | Inl e \<Rightarrow> fallbackCall c a s)"

text \<open>
  A caller resumes from \<open>await taskPromise\<close> (with the \<open>finally\<close> that deletes the
  in-flight registration) or from \<open>await this.inFlightSummaries.get(id)\<close>.
\<close>

definition resumeCaller :: "error + string \<Rightarrow> nat \<Rightarrow> sys \<Rightarrow> sys" where
  "resumeCaller outcome c s =
     (case callers s c of
        Some (AwaitOwn key a) \<Rightarrow>
          afterTask c a outcome (s\<lparr> inFlightSummaries := (inFlightSummaries s)(key := None) \<rparr>)
      | Some (AwaitShared p a) \<Rightarrow> afterTask c a outcome s
      | _ \<Rightarrow> s)"

text \<open>\<open>task.resolve\<close> or \<open>task.reject\<close>: the promise's reactions run in the order they were added.\<close>

definition settlePromise :: "nat \<Rightarrow> error + string \<Rightarrow> sys \<Rightarrow> sys" where
  "settlePromise p outcome s =
     fold (resumeCaller outcome) (reactions s p) (s\<lparr> reactions := (reactions s)(p := []) \<rparr>)"

definition succeeded :: "error + string \<Rightarrow> bool" where
  "succeeded outcome = (case outcome of Inl e \<Rightarrow> False | Inr v \<Rightarrow> True)"

text \<open>
  \<open>processSummaryQueue\<close> from the end of its \<open>await task.runFn()\<close>: resolve or reject,
  then the \<open>finally\<close>. The callers awaiting the promise resume after this code.
\<close>

definition processSummaryQueue_resume :: "task \<Rightarrow> error + string \<Rightarrow> sys \<Rightarrow> sys" where
  "processSummaryQueue_resume task outcome s =
     (let s1 = s\<lparr> running := filter (\<lambda>(t, ph). t_promise t \<noteq> t_promise task) (running s),
                  effects := effects s @ [TaskSettled (t_promise task) (succeeded outcome)],
                  isProcessingSummaryQueue := False \<rparr>;
          s2 = (if summaryQueue s1 \<noteq> [] then processSummaryQueue s1 else s1)
      in settlePromise (t_promise task) outcome s2)"

subsection \<open>The run function of a task, with \<open>setCachedSummary\<close>\<close>

definition activation :: "sys \<Rightarrow> nat \<Rightarrow> (task \<times> phase) option" where
  "activation s p = find (\<lambda>(t, ph). t_promise t = p) (running s)"

definition setPhase :: "nat \<Rightarrow> phase \<Rightarrow> sys \<Rightarrow> sys" where
  "setPhase p ph s =
     s\<lparr> running := map (\<lambda>(t, ph'). if t_promise t = p then (t, ph) else (t, ph')) (running s) \<rparr>"

text \<open>
  \<open>runFn\<close> after the backend answered. On a summary, \<open>setCachedSummary\<close> starts: it sets
  the in-memory entry, then awaits the storage read. On an error the run function
  throws, and \<open>processSummaryQueue\<close> resumes in its \<open>catch\<close>.
\<close>

definition runFn_afterFetch :: "task \<Rightarrow> fetchOutcome \<Rightarrow> sys \<Rightarrow> sys" where
  "runFn_afterFetch task out s =
     (case handleGeminiResponse out of
        Inl e \<Rightarrow> processSummaryQueue_resume task (Inl e) s
      | Inr summary \<Rightarrow>
          setPhase (t_promise task) (StorageGetting summary)
            (s\<lparr> summaryCache := (summaryCache s)(t_id task \<mapsto> summary) \<rparr>))"

text \<open>
  \<open>setCachedSummary\<close> after the storage read: on a failure its \<open>catch\<close> logs and
  returns, so the run function returns the summary; otherwise the entry is added to
  the object read and the write is awaited.
\<close>

definition setCachedSummary_afterGet :: "task \<Rightarrow> string \<Rightarrow> storageGet \<Rightarrow> sys \<Rightarrow> sys" where
  "setCachedSummary_afterGet task summary r s =
     (case r of
        GetFailed \<Rightarrow> processSummaryQueue_resume task (Inr summary) s
      | GetValue slot \<Rightarrow>
          (let raw = (case slot of None \<Rightarrow> Map.empty | Some obj \<Rightarrow> obj)
           in setPhase (t_promise task) (StorageSetting summary (raw(t_id task \<mapsto> summary))) s))"

definition setCachedSummary_afterSet :: "task \<Rightarrow> string \<Rightarrow> cache \<Rightarrow> bool \<Rightarrow> sys \<Rightarrow> sys" where
  "setCachedSummary_afterSet task summary raw ok s =
     processSummaryQueue_resume task (Inr summary)
       (if ok then s\<lparr> persisted := Some raw \<rparr> else s)"

subsection \<open>\<open>generateEmailSummaryWithCacheQueue\<close>\<close>

text \<open>Up to \<open>await this.computeSummaryId(...)\<close>: the page is read now, the key arrives later.\<close>

definition summarize_call :: "summaryArgs \<Rightarrow> summaryOptions \<Rightarrow> dom \<Rightarrow> sys \<Rightarrow> sys" where
  "summarize_call a opts d s =
     (let key = computeSummaryId (opt_id opts) (emailSubject a) (emailContent a)
                  (Some (strOr (opt_time opts) [])) d
      in s\<lparr> callers := (callers s)(nextCaller s \<mapsto> AwaitKey key a),
            nextCaller := Suc (nextCaller s) \<rparr>)"

text \<open>
  From the key to the next \<open>await\<close>: cache hit, in-flight reuse, or a new task.
  The lookup returns null or a non-empty string, so \<open>if (cached)\<close> is the test
  for a value.
\<close>

definition summarize_afterKey :: "nat \<Rightarrow> string \<Rightarrow> summaryArgs \<Rightarrow> sys \<Rightarrow> sys" where
  "summarize_afterKey c key a s =
     (case getCachedSummary (summaryCache s) key of
        Some cached \<Rightarrow> s\<lparr> callers := (callers s)(c \<mapsto> Returned (Inr cached)) \<rparr>
      | None \<Rightarrow>
         (case inFlightSummaries s key of
            Some p \<Rightarrow>
              s\<lparr> reactions := (reactions s)(p := reactions s p @ [c]),
                 callers := (callers s)(c \<mapsto> AwaitShared p a) \<rparr>
          | None \<Rightarrow>
             (let s1 = enqueueSummaryTask \<lparr> t_id = key, t_args = a, t_promise = c \<rparr> s
              in s1\<lparr> inFlightSummaries := (inFlightSummaries s1)(key \<mapsto> c),
                     reactions := (reactions s1)(c := [c]),
                     callers := (callers s1)(c \<mapsto> AwaitOwn key a) \<rparr>)))"

subsection \<open>The machine\<close>

datatype event =
    Call summaryArgs summaryOptions dom
  | KeyReady nat
  | TaskFetchDone nat fetchOutcome
  | StorageGetDone nat storageGet
  | StorageSetDone nat bool
  | FallbackFetchDone nat fetchOutcome

definition step :: "event \<Rightarrow> sys \<Rightarrow> sys" where
  "step e s =
     (case e of
        Call a opts d \<Rightarrow> summarize_call a opts d s
      | KeyReady c \<Rightarrow>
         (case callers s c of
            Some (AwaitKey key a) \<Rightarrow> summarize_afterKey c key a s
          | _ \<Rightarrow> s)
      | TaskFetchDone p out \<Rightarrow>
         (case activation s p of
            Some (task, Fetching) \<Rightarrow> runFn_afterFetch task out s
          | _ \<Rightarrow> s)
      | StorageGetDone p r \<Rightarrow>
         (case activation s p of
            Some (task, StorageGetting summary) \<Rightarrow> setCachedSummary_afterGet task summary r s
          | _ \<Rightarrow> s)
      | StorageSetDone p ok \<Rightarrow>
         (case activation s p of
            Some (task, StorageSetting summary raw) \<Rightarrow>
              setCachedSummary_afterSet task summary raw ok s
          | _ \<Rightarrow> s)
      | FallbackFetchDone c out \<Rightarrow>
         (case callers s c of
            Some AwaitFallback \<Rightarrow>
              s\<lparr> callers := (callers s)(c \<mapsto> Returned (handleGeminiResponse out)) \<rparr>
          | _ \<Rightarrow> s))"

definition run :: "event list \<Rightarrow> sys \<Rightarrow> sys" where
  "run es s = fold step es s"

section \<open>The batch loop \<open>generateMultiEmailSummaries\<close>\<close>

text \<open>
  A row of the inbox as the loop reads it. The loop awaits one summary at a time, so
  the wrapper is a parameter \<open>summ\<close> that runs a call to its end in a world \<open>'w\<close>;
  \<open>cacheOf\<close> reads the in-memory cache of that world and \<open>message\<close> is
  \<open>error.message\<close>. The trace lists what the loop awaited, in order.
\<close>

record rowEmail =
  em_id :: "string option"
  em_fullContent :: "string option"
  em_preview :: "string option"
  em_subject :: "string option"
  em_sender :: "string option"
  em_time :: "string option"

datatype batchAwait =
    SummaryAwaited summaryArgs summaryOptions
  | DelayAwaited nat

text \<open>\<open>a || b\<close> for two strings that may be undefined.\<close>

definition strOrOpt :: "string option \<Rightarrow> string option \<Rightarrow> string option" where
  "strOrOpt a b = (case a of None \<Rightarrow> b | Some s \<Rightarrow> if s = [] then b else Some s)"

definition rowArgs :: "rowEmail \<Rightarrow> summaryArgs" where
  "rowArgs email =
     \<lparr> emailContent = strOrOpt (em_fullContent email) (em_preview email),
       emailSubject = em_subject email,
       emailSender = em_sender email \<rparr>"

definition rowOptions :: "rowEmail \<Rightarrow> summaryOptions" where
  "rowOptions email =
     \<lparr> opt_id = (case em_id email of None \<Rightarrow> JUndefined | Some i \<Rightarrow> JStr i),
       opt_time = em_time email \<rparr>"

definition rowCached :: "cache \<Rightarrow> rowEmail \<Rightarrow> string option" where
  "rowCached c email =
     (case em_id email of
        None \<Rightarrow> None
      | Some i \<Rightarrow> if i = [] then None else getCachedSummary c i)"

fun generateMultiEmailSummaries ::
  "(summaryArgs \<Rightarrow> summaryOptions \<Rightarrow> 'w \<Rightarrow> (error + string) \<times> 'w) \<Rightarrow> ('w \<Rightarrow> cache) \<Rightarrow>
   (error \<Rightarrow> string) \<Rightarrow> rowEmail list \<Rightarrow>
   'w \<times> (rowEmail \<times> string) list \<times> batchAwait list \<Rightarrow>
   'w \<times> (rowEmail \<times> string) list \<times> batchAwait list" where
  "generateMultiEmailSummaries summ cacheOf message [] (w, summaries, trace) =
     (w, summaries, trace)"
| "generateMultiEmailSummaries summ cacheOf message (email # rest) (w, summaries, trace) =
     (case rowCached (cacheOf w) email of
        Some cached \<Rightarrow>
          generateMultiEmailSummaries summ cacheOf message rest
            (w, summaries @ [(email, cached)], trace)
      | None \<Rightarrow>
         (case summ (rowArgs email) (rowOptions email) w of
            (r, w') \<Rightarrow>
              generateMultiEmailSummaries summ cacheOf message rest
                (w',
                 summaries @ [(email, (case r of
                                         Inr summary \<Rightarrow> summary
                                       | Inl e \<Rightarrow> ''Error generating summary: '' @ message e))],
                 trace @ [SummaryAwaited (rowArgs email) (rowOptions email),
                          DelayAwaited 500])))"

section \<open>Auxiliary notions and example inputs\<close>

text \<open>The value of an optional chain: \<open>undefined\<close> when a step is missing.\<close>

definition val :: "jsval option \<Rightarrow> jsval" where
  "val x = (case x of None \<Rightarrow> JUndefined | Some v \<Rightarrow> v)"

definition hexAlphabet :: "char set" where
  "hexAlphabet = set ''0123456789abcdef''"

text \<open>A page with no open message, and pages that show one.\<close>

definition emptyPage :: dom where
  "emptyPage =
     \<lparr> q_main_message = None, q_message = None, q_main_time = None, q_time = None,
       q_g3_span = None, q_gH_title = None, dom_fault = False \<rparr>"

definition timedPage :: dom where
  "timedPage =
     emptyPage \<lparr> q_time := Some \<lparr> attrs = [''datetime'' \<mapsto> ''T''], textContent = Some [] \<rparr> \<rparr>"

definition messagePage :: "string \<Rightarrow> dom" where
  "messagePage m =
     emptyPage \<lparr> q_message := Some \<lparr> attrs = [''data-message-id'' \<mapsto> m], textContent = None \<rparr> \<rparr>"

text \<open>A response body of the backend that carries the text \<open>t\<close>.\<close>

definition bodyWith :: "string \<Rightarrow> jsval" where
  "bodyWith t =
     JObj [(''candidates'',
       JArr [JObj [(''content'', JObj [(''parts'', JArr [JObj [(''text'', JStr t)]])])]])]"

definition okResponse :: "string \<Rightarrow> fetchOutcome" where
  "okResponse t = FetchResponse 200 (Some (bodyWith t))"

definition mailA :: summaryArgs where
  "mailA = \<lparr> emailContent = Some ''hello'', emailSubject = Some ''Hi'',
             emailSender = Some ''a@x.com'' \<rparr>"

definition withId :: "string \<Rightarrow> summaryOptions" where
  "withId i = \<lparr> opt_id = JStr i, opt_time = None \<rparr>"

subsection \<open>Reading the state and the log\<close>

text \<open>The tasks that were enqueued and have not settled: the running one, then the queue.\<close>

definition outstanding :: "sys \<Rightarrow> task list" where
  "outstanding s = map fst (running s) @ summaryQueue s"

fun enqueuedIn :: "effect list \<Rightarrow> nat list" where
  "enqueuedIn [] = []"
| "enqueuedIn (TaskEnqueued p # es) = p # enqueuedIn es"
| "enqueuedIn (e # es) = enqueuedIn es"

fun startedIn :: "effect list \<Rightarrow> nat list" where
  "startedIn [] = []"
| "startedIn (TaskStarted p # es) = p # startedIn es"
| "startedIn (e # es) = startedIn es"

fun settledIn :: "effect list \<Rightarrow> nat list" where
  "settledIn [] = []"
| "settledIn (TaskSettled p b # es) = p # settledIn es"
| "settledIn (e # es) = settledIn es"

fun failedIn :: "effect list \<Rightarrow> nat list" where
  "failedIn [] = []"
| "failedIn (TaskSettled p b # es) = (if b then failedIn es else p # failedIn es)"
| "failedIn (e # es) = failedIn es"

text \<open>
  One task at a time: read from the left with the task that is running (if any),
  a start needs none running and a settlement is that of the running one.
\<close>

fun serial :: "nat option \<Rightarrow> effect list \<Rightarrow> bool" where
  "serial r [] = True"
| "serial r (TaskStarted p # es) = (r = None \<and> serial (Some p) es)"
| "serial r (TaskSettled p b # es) = (r = Some p \<and> serial None es)"
| "serial r (e # es) = serial r es"

fun runningAfter :: "nat option \<Rightarrow> effect list \<Rightarrow> nat option" where
  "runningAfter r [] = r"
| "runningAfter r (TaskStarted p # es) = runningAfter (Some p) es"
| "runningAfter r (TaskSettled p b # es) = runningAfter None es"
| "runningAfter r (e # es) = runningAfter r es"

text \<open>
  A minimum delay between tasks: from a settlement to the next start, the delays
  logged add up to at least \<open>m\<close> milliseconds. The first argument is the delay
  gathered since the last settlement, if there was one.
\<close>

fun delayedSince :: "nat option \<Rightarrow> nat \<Rightarrow> effect list \<Rightarrow> bool" where
  "delayedSince w m [] = True"
| "delayedSince w m (TaskSettled p b # es) = delayedSince (Some 0) m es"
| "delayedSince w m (Delayed ms # es) = delayedSince (map_option (\<lambda>d. d + ms) w) m es"
| "delayedSince w m (TaskStarted p # es) =
     ((case w of None \<Rightarrow> True | Some d \<Rightarrow> m \<le> d) \<and> delayedSince None m es)"
| "delayedSince w m (TaskEnqueued p # es) = delayedSince w m es"

text \<open>In the trace of the batch loop: every summary awaited is followed by a delay of \<open>m\<close>.\<close>

fun spaced :: "nat \<Rightarrow> batchAwait list \<Rightarrow> bool" where
  "spaced m [] = True"
| "spaced m (SummaryAwaited a opts # DelayAwaited ms # rest) = (ms = m \<and> spaced m rest)"
| "spaced m (SummaryAwaited a opts # rest) = False"
| "spaced m (DelayAwaited ms # rest) = spaced m rest"

text \<open>What a suspended caller becomes when the promise it awaits settles.\<close>

definition resumed :: "error + string \<Rightarrow> caller option \<Rightarrow> caller option" where
  "resumed outcome st =
     (case st of
        Some (AwaitOwn key a) \<Rightarrow>
          Some (case outcome of Inr v \<Rightarrow> Returned (Inr v) | Inl e \<Rightarrow> AwaitFallback)
      | Some (AwaitShared p a) \<Rightarrow>
          Some (case outcome of Inr v \<Rightarrow> Returned (Inr v) | Inl e \<Rightarrow> AwaitFallback)
      | other \<Rightarrow> other)"

text \<open>Two states that differ at most in what is in the storage.\<close>

definition sameInMemory :: "sys \<Rightarrow> sys \<Rightarrow> bool" where
  "sameInMemory s s' \<longleftrightarrow>
     summaryCache s = summaryCache s'
   \<and> inFlightSummaries s = inFlightSummaries s'
   \<and> summaryQueue s = summaryQueue s'
   \<and> isProcessingSummaryQueue s = isProcessingSummaryQueue s'
   \<and> running s = running s'
   \<and> reactions s = reactions s'
   \<and> callers s = callers s'
   \<and> nextCaller s = nextCaller s'
   \<and> backendLog s = backendLog s'
   \<and> effects s = effects s'"

text \<open>A state the machine reaches from a start of the script.\<close>

definition reachable :: "sys \<Rightarrow> bool" where
  "reachable s = (\<exists>es c slot. s = run es (initial c slot))"

subsection \<open>Invariants of the machine\<close>

text \<open>
  The queue and its log: the flag is up exactly while a run function is active;
  at most one is; nothing waits in the queue while the flag is down; the tasks
  enqueued are the settled ones, the running one and the waiting ones, in this
  order; the tasks started are the settled ones and the running one; and the log
  is serial. \<open>queueInv0\<close> is the same without the third part, for the moment
  between the push and the call of \<open>processSummaryQueue\<close>.
\<close>

definition queueInv0 :: "sys \<Rightarrow> bool" where
  "queueInv0 s \<longleftrightarrow>
     (isProcessingSummaryQueue s \<longleftrightarrow> running s \<noteq> [])
   \<and> length (running s) \<le> 1
   \<and> enqueuedIn (effects s) = settledIn (effects s) @ map t_promise (outstanding s)
   \<and> startedIn (effects s) = settledIn (effects s) @ map (\<lambda>r. t_promise (fst r)) (running s)
   \<and> serial None (effects s)
   \<and> runningAfter None (effects s) =
        (case running s of [] \<Rightarrow> None | r # rs \<Rightarrow> Some (t_promise (fst r)))"

definition queueInv :: "sys \<Rightarrow> bool" where
  "queueInv s \<longleftrightarrow>
     queueInv0 s \<and> (isProcessingSummaryQueue s \<or> summaryQueue s = [])"

text \<open>
  Single flight: no two outstanding tasks have the same key; each outstanding task
  is registered in flight under its key, its enqueuer is suspended at
  \<open>await taskPromise\<close> and is among the reactions of the promise; nothing else is
  registered in flight; the reactions of a promise are its enqueuer and callers
  suspended at \<open>await this.inFlightSummaries.get(id)\<close>; only promises of
  outstanding tasks have reactions; and the numbers of the callers are below the
  next one.
\<close>

definition flightInv :: "sys \<Rightarrow> bool" where
  "flightInv s \<longleftrightarrow>
     distinct (map t_id (outstanding s))
   \<and> (\<forall>t \<in> set (outstanding s).
         inFlightSummaries s (t_id t) = Some (t_promise t)
       \<and> callers s (t_promise t) = Some (AwaitOwn (t_id t) (t_args t))
       \<and> t_promise t \<in> set (reactions s (t_promise t)))
   \<and> (\<forall>k p. inFlightSummaries s k = Some p \<longrightarrow> k \<in> t_id ` set (outstanding s))
   \<and> (\<forall>p c. c \<in> set (reactions s p) \<longrightarrow>
         c = p \<or> (\<exists>a. callers s c = Some (AwaitShared p a)))
   \<and> (\<forall>p. reactions s p \<noteq> [] \<longrightarrow> p \<in> t_promise ` set (outstanding s))
   \<and> (\<forall>c. callers s c \<noteq> None \<longrightarrow> c < nextCaller s)"

text \<open>
  The cache and the tasks: a task that waits, or whose backend call is running, has
  no usable cache entry under its key; a task that is persisting its summary has
  that summary in the in-memory cache.
\<close>

fun phaseOk :: "cache \<Rightarrow> task \<times> phase \<Rightarrow> bool" where
  "phaseOk c (t, Fetching) = (getCachedSummary c (t_id t) = None)"
| "phaseOk c (t, StorageGetting v) = (c (t_id t) = Some v)"
| "phaseOk c (t, StorageSetting v raw) = (c (t_id t) = Some v)"

definition cacheInv :: "sys \<Rightarrow> bool" where
  "cacheInv s \<longleftrightarrow>
     (\<forall>t \<in> set (summaryQueue s). getCachedSummary (summaryCache s) (t_id t) = None)
   \<and> (\<forall>r \<in> set (running s). phaseOk (summaryCache s) r)"

text \<open>
  Backend calls: as long as no task has failed, every backend call is the one call
  of a started task.
\<close>

definition callsInv :: "sys \<Rightarrow> bool" where
  "callsInv s \<longleftrightarrow>
     (failedIn (effects s) = [] \<longrightarrow> length (backendLog s) = length (startedIn (effects s)))"

definition machineInv :: "sys \<Rightarrow> bool" where
  "machineInv s \<longleftrightarrow> queueInv s \<and> flightInv s \<and> cacheInv s \<and> callsInv s"

subsection \<open>Example runs\<close>

definition fresh :: sys where
  "fresh = initial Map.empty None"

text \<open>Two calls for the same row, the second before the first has settled.\<close>

definition sameKeyCalls :: "event list" where
  "sameKeyCalls =
     [Call mailA (withId ''mid:a'') emptyPage, KeyReady 0,
      Call mailA (withId ''mid:a'') emptyPage, KeyReady 1]"

text \<open>
  The same two calls; the backend call of their task fails, and the two calls the
  wrapper then makes in its \<open>catch\<close> are answered with two texts.
\<close>

definition sharedTaskFails :: "event list" where
  "sharedTaskFails =
     sameKeyCalls @ [TaskFetchDone 0 FetchFailed,
                     FallbackFetchDone 0 (okResponse ''x''),
                     FallbackFetchDone 1 (okResponse ''y'')]"

text \<open>Two calls for two rows.\<close>

definition twoKeyCalls :: "event list" where
  "twoKeyCalls =
     [Call mailA (withId ''mid:a'') emptyPage, KeyReady 0,
      Call mailA (withId ''mid:b'') emptyPage, KeyReady 1]"

text \<open>
  The batch loop asks for the summary of a row; while the task of that call is
  running, an email is opened (the page shows its message id) and its summary is
  asked for, with no options.
\<close>

definition noOptions :: summaryOptions where
  "noOptions = \<lparr> opt_id = JUndefined, opt_time = None \<rparr>"

definition rowAndOpenedEmail :: "event list" where
  "rowAndOpenedEmail =
     [Call mailA (withId ''mid:a'') emptyPage, KeyReady 0,
      Call mailA noOptions (messagePage ''b''), KeyReady 1]"

text \<open>One call, run to its end: the backend answers with the text \<open>t\<close> and the storage works.\<close>

definition callToEnd :: "nat \<Rightarrow> string \<Rightarrow> event list" where
  "callToEnd c t =
     [Call mailA (withId ''mid:a'') emptyPage, KeyReady c,
      TaskFetchDone c (okResponse t), StorageGetDone c (GetValue None), StorageSetDone c True]"

text \<open>The events that run one call of the wrapper to its end when nothing else is going on.\<close>

definition oneCall ::
  "summaryArgs \<Rightarrow> summaryOptions \<Rightarrow> dom \<Rightarrow> nat \<Rightarrow> fetchOutcome \<Rightarrow> storageGet \<Rightarrow> bool \<Rightarrow> event list" where
  "oneCall a opts d c out g ok =
     [Call a opts d, KeyReady c, TaskFetchDone c out, StorageGetDone c g, StorageSetDone c ok]"

definition rowA :: rowEmail where
  "rowA = \<lparr> em_id = Some ''mid:a'', em_fullContent = Some ''hello'', em_preview = None,
            em_subject = Some ''Hi'', em_sender = Some ''a@x.com'', em_time = None \<rparr>"

definition rowB :: rowEmail where
  "rowB = rowA \<lparr> em_id := Some ''mid:b'' \<rparr>"

text \<open>The second call has its key and a task for that key is running.\<close>

definition awaitingShared :: sys where
  "awaitingShared = run [Call mailA (withId ''mid:a'') emptyPage, KeyReady 0,
      Call mailA (withId ''mid:a'') emptyPage] fresh"

text \<open>Both calls await the task, which is writing its summary to the storage.\<close>

definition persisting :: sys where
  "persisting =
     run (sameKeyCalls @ [TaskFetchDone 0 (okResponse ''sum''),
                          StorageGetDone 0 (GetValue None)]) fresh"

text \<open>The backend has answered and the task is about to read the storage.\<close>

definition fetched :: sys where
  "fetched = run (sameKeyCalls @ [TaskFetchDone 0 (okResponse ''sum'')]) fresh"




text \<open>
  One call whose task fails: the wrapper goes on in its \<open>catch\<close>, and the call it
  makes there is answered with a text.
\<close>

definition firstCallFallsBack :: "event list" where
  "firstCallFallsBack =
     [Call mailA (withId ''mid:a'') emptyPage, KeyReady 0,
      TaskFetchDone 0 FetchFailed, FallbackFetchDone 0 (okResponse ''x'')]"

text \<open>One call: the backend answers with a blank text, and the storage write fails.\<close>

definition blankNotPersisted :: "event list" where
  "blankNotPersisted =
     [Call mailA (withId ''mid:a'') emptyPage, KeyReady 0,
      TaskFetchDone 0 (okResponse '' ''), StorageGetDone 0 (GetValue None),
      StorageSetDone 0 False]"

section \<open>Content hasher: properties\<close>

lemma length_sha256: "length (sha256 m) = 32"
proof -
  have "length (hbytes h) = 32" for h
    by (cases h rule: hbytes.cases) (simp add: word_bytes_def)
  then show ?thesis by (simp add: sha256_def)
qed

lemma length_hexfold:
  "length (foldl (\<lambda>hex b. hex @ padStart 2 (CHR ''0'') (toString16 b)) acc bs)
     = length acc + 2 * length bs"
  by (induction bs arbitrary: acc) (auto simp: padStart_def toString16_def Let_def)

lemma length_computeSHA256Hex: "length (computeSHA256Hex s) = 64"
  by (simp add: computeSHA256Hex_def Let_def length_hexfold length_sha256)

lemma hexDigit_in: "d < 16 \<Longrightarrow> hexDigit d \<in> hexAlphabet"
  unfolding hexDigit_def hexAlphabet_def by (rule nth_mem) simp

lemma zero_in_hexAlphabet: "CHR ''0'' \<in> hexAlphabet"
  by (simp add: hexAlphabet_def)

lemma set_hexbyte: "set (padStart 2 (CHR ''0'') (toString16 b)) \<subseteq> hexAlphabet"
proof -
  have "unat b < 2 ^ LENGTH(8)" by (rule unsigned_less)
  then have "unat b < 256" by simp
  then have d: "unat b div 16 < 16" "unat b mod 16 < 16" by auto
  show ?thesis
    using hexDigit_in[OF d(1)] hexDigit_in[OF d(2)] hexDigit_in[of "unat b"] zero_in_hexAlphabet
    by (auto simp: padStart_def toString16_def Let_def)
qed

lemma set_hexfold:
  "set (foldl (\<lambda>hex b. hex @ padStart 2 (CHR ''0'') (toString16 b)) acc bs)
     \<subseteq> set acc \<union> hexAlphabet"
proof (induction bs arbitrary: acc)
  case Nil
  then show ?case by auto
next
  case (Cons b bs)
  then show ?case
    using Cons.IH[of "acc @ padStart 2 (CHR ''0'') (toString16 b)"] set_hexbyte[of b] by auto
qed

lemma set_computeSHA256Hex: "set (computeSHA256Hex s) \<subseteq> hexAlphabet"
  using set_hexfold[of "[]"] by (simp add: computeSHA256Hex_def Let_def)

lemma strOr_Some_Nil [simp]: "strOr (Some s) [] = s"
  by (simp add: strOr_def)

lemmas page_defs =
  emptyPage_def timedPage_def messagePage_def getOpenMessageIdFromDOM_def
  extractOpenEmailTimeFromDOM_def elOr_def

text \<open>
  C5, as the code has it: an explicit id that is a non-empty string is the key as it
  stands; no prefix is put before it. (The batch loop looks the cache up under the
  id of the row itself, so the key must be that id unchanged.)
\<close>

theorem computeSummaryId_explicit:
  "s \<noteq> [] \<Longrightarrow> computeSummaryId (JStr s) subject body time d = s"
  by (simp add: computeSummaryId_def typeofString_def)

theorem computeSummaryId_explicit_witness:
  "''abc'' \<noteq> [] \<and> computeSummaryId (JStr ''abc'') None None None emptyPage = ''abc''"
  using computeSummaryId_explicit[of "''abc''" None None None emptyPage] by simp

text \<open>C5 as stated fails: for the explicit id \<open>abc\<close> the key is not \<open>mid:abc\<close>.\<close>

theorem computeSummaryId_explicit_not_prefixed:
  "computeSummaryId (JStr ''abc'') None None None emptyPage \<noteq> ''mid:'' @ ''abc''"
  by (simp add: computeSummaryId_def typeofString_def)

text \<open>
  C6, as the code has it: with no usable explicit id and no message id on the page,
  the key is \<open>hash:\<close> and the 64 hexadecimal digits of the SHA-256 digest of
  subject, \<open>|\<close>, timestamp, \<open>|\<close>, first 50 code units of the body. A missing
  subject or body counts as empty; a missing or empty timestamp is replaced by the
  time the page shows for the open email, and counts as empty only when the page
  shows none.
\<close>

theorem computeSummaryId_hash:
  assumes "\<not> (truthy explicitId \<and> typeofString explicitId)"
    and "getOpenMessageIdFromDOM d = []"
  shows "computeSummaryId explicitId subject body time d =
           ''hash:'' @ computeSHA256Hex
              (strOr subject [] @ ''|'' @ strOr time (extractOpenEmailTimeFromDOM d) @ ''|''
                 @ take 50 (strOr body []))
         \<and> length (computeSHA256Hex x) = 64
         \<and> set (computeSHA256Hex x) \<subseteq> hexAlphabet"
  using assms
  by (auto simp add: computeSummaryId_def Let_def substring0_def length_computeSHA256Hex
        set_computeSHA256Hex)

theorem computeSummaryId_hash_witness:
  "\<not> (truthy JUndefined \<and> typeofString JUndefined)
   \<and> getOpenMessageIdFromDOM emptyPage = []
   \<and> computeSummaryId JUndefined (Some ''Meeting'')
        (Some ''Let's meet Tuesday at 3pm to discuss Q3 roadmap.'') (Some ''10:15 AM'') emptyPage
      = ''hash:e1215ac209a45142df48aa88a620daff7e8a879543635d7aa9e990ecd2e8e9af''"
proof -
  have h: "computeSHA256Hex ''Meeting|10:15 AM|Let's meet Tuesday at 3pm to discuss Q3 roadmap.''
           = ''e1215ac209a45142df48aa88a620daff7e8a879543635d7aa9e990ecd2e8e9af''"
    by code_simp
  have a: "\<not> (truthy JUndefined \<and> typeofString JUndefined)" by simp
  have b: "getOpenMessageIdFromDOM emptyPage = []" by (simp add: page_defs strOr_def)
  show ?thesis
    using computeSummaryId_hash[OF a b, where subject = "Some ''Meeting''"
            and time = "Some ''10:15 AM''"
            and body = "Some ''Let's meet Tuesday at 3pm to discuss Q3 roadmap.''"] a b
    by (simp add: strOr_def h)
qed

text \<open>
  C6 as stated fails: with no timestamp passed and a page that shows the time \<open>T\<close>,
  the key is not the hash of subject, empty timestamp and body.
\<close>

theorem computeSummaryId_hash_uses_page_time:
  "computeSummaryId JUndefined (Some ''S'') (Some ''B'') None timedPage
     \<noteq> ''hash:'' @ computeSHA256Hex (''S'' @ ''|'' @ [] @ ''|'' @ take 50 ''B'')"
proof -
  have a: "computeSHA256Hex ''S|T|B''
             = ''a47ab0290f5d56c07b6fa391e03c2a740314d8acd0809caca17271b2ad96e6fa''"
    by code_simp
  have b: "computeSHA256Hex ''S||B''
             = ''205a94ef6ff2baf7be55363c24ab14f26d392d52f967bd3fc443dd6ca935d964''"
    by code_simp
  show ?thesis
    by (simp add: computeSummaryId_def page_defs strOr_def substring0_def a b)
qed


text \<open>
  C7, as the code has it: the key is a function of the arguments and of two readings
  of the page, the id of the open message and the time of the open email. Equal
  arguments and equal readings give equal keys; with an explicit id that is a
  non-empty string the page is not consulted at all; and the call, up to the key,
  touches neither the backend, nor the storage, nor the cache, nor the queue.
\<close>

theorem computeSummaryId_deterministic:
  "(getOpenMessageIdFromDOM d1 = getOpenMessageIdFromDOM d2
      \<and> extractOpenEmailTimeFromDOM d1 = extractOpenEmailTimeFromDOM d2
     \<longrightarrow> computeSummaryId e subject body time d1 = computeSummaryId e subject body time d2)
   \<and> (truthy e \<and> typeofString e
     \<longrightarrow> computeSummaryId e subject body time d1 = computeSummaryId e subject body time d2)
   \<and> backendLog (summarize_call a opts d1 s) = backendLog s
   \<and> persisted (summarize_call a opts d1 s) = persisted s
   \<and> summaryCache (summarize_call a opts d1 s) = summaryCache s
   \<and> summaryQueue (summarize_call a opts d1 s) = summaryQueue s
   \<and> inFlightSummaries (summarize_call a opts d1 s) = inFlightSummaries s"
  by (simp add: computeSummaryId_def summarize_call_def Let_def)

theorem computeSummaryId_deterministic_witness:
  "getOpenMessageIdFromDOM emptyPage = getOpenMessageIdFromDOM (emptyPage\<lparr>dom_fault := True\<rparr>)
   \<and> extractOpenEmailTimeFromDOM emptyPage
       = extractOpenEmailTimeFromDOM (emptyPage\<lparr>dom_fault := True\<rparr>)
   \<and> truthy (JStr ''mid:1'') \<and> typeofString (JStr ''mid:1'')
   \<and> computeSummaryId (JStr ''mid:1'') None None None emptyPage
       = computeSummaryId (JStr ''mid:1'') None None None (emptyPage\<lparr>dom_fault := True\<rparr>)"
  using computeSummaryId_deterministic[of emptyPage "emptyPage\<lparr>dom_fault := True\<rparr>"
          "JStr ''mid:1''" None None None]
  by (simp add: page_defs strOr_def typeofString_def)

text \<open>
  C7 as stated fails: the same arguments give two keys on two pages that show
  different open messages.
\<close>

theorem computeSummaryId_depends_on_page:
  "computeSummaryId JUndefined (Some ''S'') (Some ''B'') (Some ''T'') (messagePage ''a'')
     \<noteq> computeSummaryId JUndefined (Some ''S'') (Some ''B'') (Some ''T'') (messagePage ''b'')"
  by (simp add: computeSummaryId_def page_defs strOr_def)

section \<open>Backend client: properties\<close>

lemma optChain_getField: "optChain (getField name) v = val (follow (Member name) v)"
  by (cases v) (simp_all add: optChain_def val_def split: option.splits)

lemma optChain_getIndex0: "optChain getIndex0 v = val (follow First v)"
  by (cases v rule: getIndex0.cases)
     (simp_all add: optChain_def val_def split: option.splits list.splits)

lemma follow_undefined: "follow st JUndefined = None"
  by (cases st) simp_all

lemma followPath_append1:
  "followPath (p @ [st]) v = (case followPath p v of None \<Rightarrow> None | Some x \<Rightarrow> follow st x)"
  by (induction p arbitrary: v) (simp_all split: option.splits)

lemma followPath_snoc: "val (followPath (p @ [st]) v) = val (follow st (val (followPath p v)))"
  by (simp add: followPath_append1 val_def follow_undefined split: option.splits)

lemma optional_chain_is_path:
  "optChain (getField ''text'')
     (optChain getIndex0
       (optChain (getField ''parts'')
         (optChain (getField ''content'')
           (optChain getIndex0 (optChain (getField ''candidates'') data))))) =
   val (followPath [Member ''candidates'', First, Member ''content'',
                    Member ''parts'', First, Member ''text''] data)"
proof -
  have "val (followPath ([] @ [Member ''candidates''] @ [First] @ [Member ''content''] @
                         [Member ''parts''] @ [First] @ [Member ''text'']) data) =
        optChain (getField ''text'')
          (optChain getIndex0
            (optChain (getField ''parts'')
              (optChain (getField ''content'')
                (optChain getIndex0 (optChain (getField ''candidates'') data)))))"
    unfolding append_assoc[symmetric] followPath_snoc optChain_getField optChain_getIndex0
    by (simp add: val_def)
  then show ?thesis by simp
qed

lemma handleGeminiResponse_Inr_iff:
  "handleGeminiResponse out = Inr text \<longleftrightarrow>
     (\<exists>status data g. out = FetchResponse status (Some data) \<and> response_ok status \<and>
         generatedContent data = Some g \<and> text = trim g)"
proof (cases out)
  case FetchFailed
  then show ?thesis by (simp add: handleGeminiResponse_def)
next
  case (FetchResponse status body)
  show ?thesis
  proof (cases body)
    case None
    with FetchResponse show ?thesis by (simp add: handleGeminiResponse_def)
  next
    case (Some data)
    have g: "getField ''candidates'' data = optChain (getField ''candidates'') data"
      if "data \<noteq> JNull" "data \<noteq> JUndefined"
      using that by (simp add: optChain_def)
    show ?thesis
    proof (cases "data = JNull \<or> data = JUndefined")
      case True
      then show ?thesis using FetchResponse Some
        by (auto simp: handleGeminiResponse_def generatedContent_def)
    next
      case False
      then show ?thesis using FetchResponse Some
        unfolding handleGeminiResponse_def generatedContent_def
        apply (simp add: g optional_chain_is_path Let_def del: followPath.simps)
        apply (auto simp: val_def split: option.splits jsval.splits simp del: followPath.simps)
        done
    qed
  qed
qed

lemma handleGeminiResponse_Inl_iff:
  "(\<exists>e. handleGeminiResponse out = Inl e) \<longleftrightarrow>
     (out = FetchFailed \<or>
      (\<exists>status body. out = FetchResponse status body \<and>
          (\<not> response_ok status \<or>
           (case body of None \<Rightarrow> True | Some data \<Rightarrow> generatedContent data = None))))"
proof -
  have "(\<exists>e. handleGeminiResponse out = Inl e) \<longleftrightarrow> \<not> (\<exists>t. handleGeminiResponse out = Inr t)"
    by (cases "handleGeminiResponse out") auto
  also have "\<dots> \<longleftrightarrow> \<not> (\<exists>status data g. out = FetchResponse status (Some data) \<and>
                 response_ok status \<and> generatedContent data = Some g)"
    unfolding handleGeminiResponse_Inr_iff by blast
  also have "\<dots> \<longleftrightarrow> (out = FetchFailed \<or>
      (\<exists>status body. out = FetchResponse status body \<and>
          (\<not> response_ok status \<or>
           (case body of None \<Rightarrow> True | Some data \<Rightarrow> generatedContent data = None))))"
    by (cases out) (auto split: option.splits)
  finally show ?thesis .
qed

lemma callGeminiAPI_fst:
  "fst (callGeminiAPI prompt maxTokens n) =
     handleGeminiResponse (case answers n of [] \<Rightarrow> FetchFailed | out # rest \<Rightarrow> out)"
  by (auto simp: callGeminiAPI_def fetch_def split: list.splits prod.splits)

lemma callGeminiAPI_sent:
  "sent (snd (callGeminiAPI prompt maxTokens n)) = sent n @ [geminiRequest prompt maxTokens]"
  by (auto simp: callGeminiAPI_def fetch_def split: list.splits prod.splits)

text \<open>
  C8: \<open>callGeminiAPI\<close> returns a text exactly when the call came back with a status
  from 200 to 299 and a body that carries generated content, and the text is that
  content trimmed; it fails exactly when the network call failed, or the status is
  another one, or the body (unreadable or readable) carries no generated content; and
  whatever the outcome it has sent one request and no more.
\<close>

theorem callGeminiAPI_contract:
  "(fst (callGeminiAPI prompt maxTokens n) = Inr text \<longleftrightarrow>
      (\<exists>status data g rest. answers n = FetchResponse status (Some data) # rest
          \<and> response_ok status \<and> generatedContent data = Some g \<and> text = trim g))
   \<and> ((\<exists>e. fst (callGeminiAPI prompt maxTokens n) = Inl e) \<longleftrightarrow>
        (answers n = [] \<or> (\<exists>rest. answers n = FetchFailed # rest)
         \<or> (\<exists>status body rest. answers n = FetchResponse status body # rest \<and>
              (\<not> response_ok status \<or>
               (case body of None \<Rightarrow> True | Some data \<Rightarrow> generatedContent data = None)))))
   \<and> sent (snd (callGeminiAPI prompt maxTokens n)) = sent n @ [geminiRequest prompt maxTokens]"
proof (intro conjI)
  show "fst (callGeminiAPI prompt maxTokens n) = Inr text \<longleftrightarrow>
      (\<exists>status data g rest. answers n = FetchResponse status (Some data) # rest
          \<and> response_ok status \<and> generatedContent data = Some g \<and> text = trim g)"
    unfolding callGeminiAPI_fst handleGeminiResponse_Inr_iff
    by (cases "answers n") auto
  show "(\<exists>e. fst (callGeminiAPI prompt maxTokens n) = Inl e) \<longleftrightarrow>
        (answers n = [] \<or> (\<exists>rest. answers n = FetchFailed # rest)
         \<or> (\<exists>status body rest. answers n = FetchResponse status body # rest \<and>
              (\<not> response_ok status \<or>
               (case body of None \<Rightarrow> True | Some data \<Rightarrow> generatedContent data = None))))"
    unfolding callGeminiAPI_fst handleGeminiResponse_Inl_iff
    by (cases "answers n") auto
  show "sent (snd (callGeminiAPI prompt maxTokens n)) = sent n @ [geminiRequest prompt maxTokens]"
    by (rule callGeminiAPI_sent)
qed

theorem callGeminiAPI_contract_witness:
  "fst (callGeminiAPI ''p'' (Some 150) \<lparr> sent = [], answers = [okResponse '' Hi ''] \<rparr>) = Inr ''Hi''
   \<and> response_ok 200 \<and> generatedContent (bodyWith '' Hi '') = Some '' Hi ''
   \<and> (\<exists>e. fst (callGeminiAPI ''p'' (Some 150)
              \<lparr> sent = [], answers = [FetchResponse 503 None] \<rparr>) = Inl e)
   \<and> \<not> response_ok 503
   \<and> sent (snd (callGeminiAPI ''p'' (Some 150) \<lparr> sent = [], answers = [okResponse '' Hi ''] \<rparr>))
       = [geminiRequest ''p'' (Some 150)]"
  using callGeminiAPI_contract[of "''p''" "Some 150"
          "\<lparr> sent = [], answers = [okResponse '' Hi ''] \<rparr>" "''Hi''"]
        callGeminiAPI_contract[of "''p''" "Some 150"
          "\<lparr> sent = [], answers = [FetchResponse 503 None] \<rparr>"]
  by (simp add: okResponse_def bodyWith_def response_ok_def generatedContent_def trim_def
        isJsSpace_def)

section \<open>The machine: what each piece of code changes\<close>

subsection \<open>resumeCaller and settlePromise, field by field\<close>

lemma resumeCaller_unchanged [simp]:
  "summaryCache (resumeCaller outcome c s) = summaryCache s"
  "summaryQueue (resumeCaller outcome c s) = summaryQueue s"
  "running (resumeCaller outcome c s) = running s"
  "isProcessingSummaryQueue (resumeCaller outcome c s) = isProcessingSummaryQueue s"
  "effects (resumeCaller outcome c s) = effects s"
  "reactions (resumeCaller outcome c s) = reactions s"
  "nextCaller (resumeCaller outcome c s) = nextCaller s"
  "persisted (resumeCaller outcome c s) = persisted s"
  by (simp_all add: resumeCaller_def afterTask_def fallbackCall_def
        split: option.splits caller.splits sum.splits)

lemma callers_resumeCaller:
  "callers (resumeCaller outcome c s) = (callers s)(c := resumed outcome (callers s c))"
  by (auto simp: resumeCaller_def afterTask_def fallbackCall_def resumed_def fun_eq_iff
        split: option.splits caller.splits sum.splits)

lemma inFlight_resumeCaller:
  "inFlightSummaries (resumeCaller outcome c s) =
     (case callers s c of
        Some (AwaitOwn key a) \<Rightarrow> (inFlightSummaries s)(key := None)
      | _ \<Rightarrow> inFlightSummaries s)"
  by (simp add: resumeCaller_def afterTask_def fallbackCall_def
        split: option.splits caller.splits sum.splits)

lemma backendLog_resumeCaller_Inr [simp]:
  "backendLog (resumeCaller (Inr v) c s) = backendLog s"
  by (simp add: resumeCaller_def afterTask_def split: option.splits caller.splits)

lemma resumed_idem [simp]: "resumed outcome (resumed outcome st) = resumed outcome st"
  by (simp add: resumed_def split: option.splits caller.splits sum.splits)

lemma resumed_not_own [simp]: "resumed outcome st \<noteq> Some (AwaitOwn key a)"
  by (simp add: resumed_def split: option.splits caller.splits sum.splits)

lemma fold_resume_unchanged [simp]:
  "summaryCache (fold (resumeCaller outcome) cs s) = summaryCache s"
  "summaryQueue (fold (resumeCaller outcome) cs s) = summaryQueue s"
  "running (fold (resumeCaller outcome) cs s) = running s"
  "isProcessingSummaryQueue (fold (resumeCaller outcome) cs s) = isProcessingSummaryQueue s"
  "effects (fold (resumeCaller outcome) cs s) = effects s"
  "reactions (fold (resumeCaller outcome) cs s) = reactions s"
  "nextCaller (fold (resumeCaller outcome) cs s) = nextCaller s"
  "persisted (fold (resumeCaller outcome) cs s) = persisted s"
  by (induction cs arbitrary: s; simp)+

lemma callers_fold_resume:
  "callers (fold (resumeCaller outcome) cs s) c =
     (if c \<in> set cs then resumed outcome (callers s c) else callers s c)"
  by (induction cs arbitrary: s) (auto simp: callers_resumeCaller)

lemma inFlight_fold_resume:
  "inFlightSummaries (fold (resumeCaller outcome) cs s) k =
     (if \<exists>c \<in> set cs. \<exists>a. callers s c = Some (AwaitOwn k a) then None
      else inFlightSummaries s k)"
proof (induction cs arbitrary: s)
  case Nil
  then show ?case by simp
next
  case (Cons x xs)
  show ?case
    by (auto simp: Cons.IH callers_resumeCaller inFlight_resumeCaller
          split: option.splits caller.splits)
qed

lemma backendLog_fold_resume_Inr [simp]:
  "backendLog (fold (resumeCaller (Inr v)) cs s) = backendLog s"
  by (induction cs arbitrary: s) simp_all

lemma settlePromise_unchanged [simp]:
  "summaryCache (settlePromise p outcome s) = summaryCache s"
  "summaryQueue (settlePromise p outcome s) = summaryQueue s"
  "running (settlePromise p outcome s) = running s"
  "isProcessingSummaryQueue (settlePromise p outcome s) = isProcessingSummaryQueue s"
  "effects (settlePromise p outcome s) = effects s"
  "nextCaller (settlePromise p outcome s) = nextCaller s"
  "persisted (settlePromise p outcome s) = persisted s"
  "reactions (settlePromise p outcome s) = (reactions s)(p := [])"
  by (simp_all add: settlePromise_def)

lemma callers_settlePromise:
  "callers (settlePromise p outcome s) c =
     (if c \<in> set (reactions s p) then resumed outcome (callers s c) else callers s c)"
  by (simp add: settlePromise_def callers_fold_resume)

lemma inFlight_settlePromise:
  "inFlightSummaries (settlePromise p outcome s) k =
     (if \<exists>c \<in> set (reactions s p). \<exists>a. callers s c = Some (AwaitOwn k a) then None
      else inFlightSummaries s k)"
  by (simp add: settlePromise_def inFlight_fold_resume)

lemma backendLog_settlePromise_Inr [simp]:
  "backendLog (settlePromise p (Inr v) s) = backendLog s"
  by (simp add: settlePromise_def)

subsection \<open>processSummaryQueue\<close>

lemma processSummaryQueue_idle:
  "isProcessingSummaryQueue s \<or> summaryQueue s = [] \<Longrightarrow> processSummaryQueue s = s"
  by (auto simp: processSummaryQueue_def)

lemma processSummaryQueue_start:
  "\<not> isProcessingSummaryQueue s \<Longrightarrow> summaryQueue s = task # rest \<Longrightarrow>
   processSummaryQueue s =
     s\<lparr> summaryQueue := rest,
        isProcessingSummaryQueue := True,
        running := running s @ [(task, Fetching)],
        backendLog := backendLog s @ [generateEmailSummary_request (t_args task)],
        effects := effects s @ [TaskStarted (t_promise task)] \<rparr>"
  by (simp add: processSummaryQueue_def)

lemma processSummaryQueue_unchanged [simp]:
  "summaryCache (processSummaryQueue s) = summaryCache s"
  "inFlightSummaries (processSummaryQueue s) = inFlightSummaries s"
  "reactions (processSummaryQueue s) = reactions s"
  "callers (processSummaryQueue s) = callers s"
  "nextCaller (processSummaryQueue s) = nextCaller s"
  "persisted (processSummaryQueue s) = persisted s"
  by (simp_all add: processSummaryQueue_def split: list.splits)

subsection \<open>The queue invariant\<close>

lemma enqueuedIn_append [simp]: "enqueuedIn (xs @ ys) = enqueuedIn xs @ enqueuedIn ys"
  by (induction xs rule: enqueuedIn.induct) simp_all

lemma startedIn_append [simp]: "startedIn (xs @ ys) = startedIn xs @ startedIn ys"
  by (induction xs rule: startedIn.induct) simp_all

lemma settledIn_append [simp]: "settledIn (xs @ ys) = settledIn xs @ settledIn ys"
  by (induction xs rule: settledIn.induct) simp_all

lemma failedIn_append [simp]: "failedIn (xs @ ys) = failedIn xs @ failedIn ys"
  by (induction xs rule: failedIn.induct) simp_all

lemma runningAfter_append [simp]:
  "runningAfter r (xs @ ys) = runningAfter (runningAfter r xs) ys"
  by (induction r xs rule: runningAfter.induct) simp_all

lemma serial_append [simp]:
  "serial r (xs @ ys) \<longleftrightarrow> serial r xs \<and> serial (runningAfter r xs) ys"
  by (induction r xs rule: serial.induct) auto

lemma queueInv0_irrelevant [simp]:
  "queueInv0 (s\<lparr>summaryCache := c\<rparr>) = queueInv0 s"
  "queueInv0 (s\<lparr>inFlightSummaries := f\<rparr>) = queueInv0 s"
  "queueInv0 (s\<lparr>reactions := r\<rparr>) = queueInv0 s"
  "queueInv0 (s\<lparr>callers := cs\<rparr>) = queueInv0 s"
  "queueInv0 (s\<lparr>nextCaller := n\<rparr>) = queueInv0 s"
  "queueInv0 (s\<lparr>backendLog := b\<rparr>) = queueInv0 s"
  "queueInv0 (s\<lparr>persisted := ps\<rparr>) = queueInv0 s"
  by (simp_all add: queueInv0_def outstanding_def)

lemma queueInv_irrelevant [simp]:
  "queueInv (s\<lparr>summaryCache := c\<rparr>) = queueInv s"
  "queueInv (s\<lparr>inFlightSummaries := f\<rparr>) = queueInv s"
  "queueInv (s\<lparr>reactions := r\<rparr>) = queueInv s"
  "queueInv (s\<lparr>callers := cs\<rparr>) = queueInv s"
  "queueInv (s\<lparr>nextCaller := n\<rparr>) = queueInv s"
  "queueInv (s\<lparr>backendLog := b\<rparr>) = queueInv s"
  "queueInv (s\<lparr>persisted := ps\<rparr>) = queueInv s"
  by (simp_all add: queueInv_def)

lemma queueInv_cong:
  "summaryQueue s' = summaryQueue s \<Longrightarrow> running s' = running s \<Longrightarrow>
   isProcessingSummaryQueue s' = isProcessingSummaryQueue s \<Longrightarrow> effects s' = effects s \<Longrightarrow>
   queueInv s' = queueInv s"
  by (simp add: queueInv_def queueInv0_def outstanding_def)

lemma queueInv_processSummaryQueue: "queueInv0 s \<Longrightarrow> queueInv (processSummaryQueue s)"
proof (cases "isProcessingSummaryQueue s \<or> summaryQueue s = []")
  case True
  assume "queueInv0 s"
  with True show ?thesis by (simp add: processSummaryQueue_idle queueInv_def)
next
  case False
  assume i: "queueInv0 s"
  from False obtain task rest where q: "summaryQueue s = task # rest"
    by (cases "summaryQueue s") auto
  from False i have r: "running s = []" by (simp add: queueInv0_def)
  show ?thesis
    using False i q r
    by (simp add: processSummaryQueue_start queueInv_def queueInv0_def outstanding_def)
qed

lemma queueInv_enqueueSummaryTask: "queueInv s \<Longrightarrow> queueInv (enqueueSummaryTask task s)"
  unfolding enqueueSummaryTask_def
  by (rule queueInv_processSummaryQueue) (simp add: queueInv_def queueInv0_def outstanding_def)

lemma queueInv_running_single:
  "queueInv s \<Longrightarrow> r \<in> set (running s) \<Longrightarrow> running s = [r]"
  by (cases "running s") (auto simp: queueInv_def queueInv0_def)

lemma queueInv_resume:
  assumes "queueInv s" and "(task, ph) \<in> set (running s)"
  shows "queueInv (processSummaryQueue_resume task outcome s)"
proof -
  have r: "running s = [(task, ph)]" using assms by (rule queueInv_running_single)
  let ?s1 = "s\<lparr> running := filter (\<lambda>(t, ph). t_promise t \<noteq> t_promise task) (running s),
                  effects := effects s @ [TaskSettled (t_promise task) (succeeded outcome)],
                  isProcessingSummaryQueue := False \<rparr>"
  have s1: "queueInv0 ?s1"
    using assms(1) r by (simp add: queueInv_def queueInv0_def outstanding_def)
  have "queueInv (if summaryQueue ?s1 \<noteq> [] then processSummaryQueue ?s1 else ?s1)"
  proof (cases "summaryQueue ?s1 \<noteq> []")
    case True
    then show ?thesis using queueInv_processSummaryQueue[OF s1] by simp
  next
    case False
    then show ?thesis using s1 by (simp add: queueInv_def)
  qed
  then show ?thesis
    unfolding processSummaryQueue_resume_def Let_def
    by (subst queueInv_cong[where s = "if summaryQueue ?s1 \<noteq> [] then processSummaryQueue ?s1 else ?s1"]) simp_all
qed

lemma map_fst_setPhase [simp]: "map fst (running (setPhase p ph s)) = map fst (running s)"
  by (auto simp: setPhase_def)

lemma setPhase_unchanged [simp]:
  "summaryCache (setPhase p ph s) = summaryCache s"
  "inFlightSummaries (setPhase p ph s) = inFlightSummaries s"
  "summaryQueue (setPhase p ph s) = summaryQueue s"
  "isProcessingSummaryQueue (setPhase p ph s) = isProcessingSummaryQueue s"
  "reactions (setPhase p ph s) = reactions s"
  "callers (setPhase p ph s) = callers s"
  "nextCaller (setPhase p ph s) = nextCaller s"
  "backendLog (setPhase p ph s) = backendLog s"
  "persisted (setPhase p ph s) = persisted s"
  "effects (setPhase p ph s) = effects s"
  by (simp_all add: setPhase_def)

lemma queueInv_setPhase: "queueInv s \<Longrightarrow> queueInv (setPhase p ph s)"
proof -
  assume i: "queueInv s"
  have m: "map (\<lambda>r. t_promise (fst r)) (running (setPhase p ph s)) = map (\<lambda>r. t_promise (fst r)) (running s)"
    using map_fst_setPhase[of p ph s] by (metis (no_types, lifting) map_map o_def map_eq_conv)
  have l: "length (running (setPhase p ph s)) = length (running s)" by (simp add: setPhase_def)
  have c: "(case running (setPhase p ph s) of [] \<Rightarrow> None | r # rs \<Rightarrow> Some (t_promise (fst r)))
           = (case running s of [] \<Rightarrow> None | r # rs \<Rightarrow> Some (t_promise (fst r)))"
    by (cases "running s") (auto simp: setPhase_def)
  have e: "running (setPhase p ph s) \<noteq> [] \<longleftrightarrow> running s \<noteq> []" by (simp add: setPhase_def)
  show ?thesis using i unfolding queueInv_def queueInv0_def outstanding_def
    by (auto simp add: m l c e)
qed

lemma activation_in_running: "activation s p = Some r \<Longrightarrow> r \<in> set (running s)"
  unfolding activation_def by (auto simp: find_Some_iff in_set_conv_nth)

lemma queueInv_initial: "queueInv (initial c slot)"
  by (simp add: queueInv_def queueInv0_def initial_def outstanding_def)

lemma queueInv_step: "queueInv s \<Longrightarrow> queueInv (step e s)"
proof (cases e)
  case (Call a opts d)
  assume "queueInv s" then show ?thesis using Call by (simp add: step_def summarize_call_def Let_def)
next
  case (KeyReady c)
  assume "queueInv s" then show ?thesis using KeyReady
    by (auto simp: step_def summarize_afterKey_def Let_def queueInv_enqueueSummaryTask
        split: option.splits caller.splits)
next
  case (TaskFetchDone p out)
  assume "queueInv s" then show ?thesis using TaskFetchDone
    by (auto simp: step_def runFn_afterFetch_def queueInv_setPhase queueInv_resume
        dest!: activation_in_running split: option.splits phase.splits sum.splits)
next
  case (StorageGetDone p r)
  assume "queueInv s" then show ?thesis using StorageGetDone
    by (auto simp: step_def setCachedSummary_afterGet_def queueInv_setPhase queueInv_resume Let_def
        dest!: activation_in_running split: option.splits phase.splits storageGet.splits)
next
  case (StorageSetDone p ok)
  assume i: "queueInv s" 
  have "queueInv (s\<lparr>persisted := x\<rparr>)" for x using i by simp
  then show ?thesis using StorageSetDone i
    by (auto simp: step_def setCachedSummary_afterSet_def intro!: queueInv_resume
        dest!: activation_in_running split: option.splits phase.splits)
next
  case (FallbackFetchDone c out)
  assume "queueInv s" then show ?thesis using FallbackFetchDone
    by (auto simp: step_def split: option.splits caller.splits)
qed

lemma queueInv_run: "queueInv s \<Longrightarrow> queueInv (run es s)"
  unfolding run_def by (induction es arbitrary: s) (simp_all add: queueInv_step)

subsection \<open>The single-flight invariant\<close>

lemma outstanding_processSummaryQueue:
  "queueInv0 s \<Longrightarrow> outstanding (processSummaryQueue s) = outstanding s"
proof (cases "isProcessingSummaryQueue s \<or> summaryQueue s = []")
  case True
  then show ?thesis by (simp add: processSummaryQueue_idle)
next
  case False
  assume i: "queueInv0 s"
  from False obtain task rest where q: "summaryQueue s = task # rest"
    by (cases "summaryQueue s") auto
  from False i have r: "running s = []" by (simp add: queueInv0_def)
  show ?thesis using False q r by (simp add: processSummaryQueue_start outstanding_def)
qed

lemma outstanding_enqueueSummaryTask:
  "queueInv s \<Longrightarrow> outstanding (enqueueSummaryTask task s) = outstanding s @ [task]"
  unfolding enqueueSummaryTask_def
  by (subst outstanding_processSummaryQueue)
     (simp_all add: queueInv_def queueInv0_def outstanding_def)

lemma enqueueSummaryTask_unchanged [simp]:
  "summaryCache (enqueueSummaryTask task s) = summaryCache s"
  "inFlightSummaries (enqueueSummaryTask task s) = inFlightSummaries s"
  "reactions (enqueueSummaryTask task s) = reactions s"
  "callers (enqueueSummaryTask task s) = callers s"
  "nextCaller (enqueueSummaryTask task s) = nextCaller s"
  "persisted (enqueueSummaryTask task s) = persisted s"
  by (simp_all add: enqueueSummaryTask_def)

text \<open>The state after a settlement, field by field.\<close>

lemma resume_unchanged [simp]:
  "summaryCache (processSummaryQueue_resume task outcome s) = summaryCache s"
  "nextCaller (processSummaryQueue_resume task outcome s) = nextCaller s"
  "persisted (processSummaryQueue_resume task outcome s) = persisted s"
  "reactions (processSummaryQueue_resume task outcome s) = (reactions s)(t_promise task := [])"
  by (simp_all add: processSummaryQueue_resume_def Let_def)

lemma callers_resume:
  "callers (processSummaryQueue_resume task outcome s) c =
     (if c \<in> set (reactions s (t_promise task)) then resumed outcome (callers s c)
      else callers s c)"
  by (auto simp add: processSummaryQueue_resume_def Let_def callers_settlePromise)

lemma inFlight_resume:
  "inFlightSummaries (processSummaryQueue_resume task outcome s) k =
     (if \<exists>c \<in> set (reactions s (t_promise task)). \<exists>a. callers s c = Some (AwaitOwn k a)
      then None else inFlightSummaries s k)"
  by (auto simp add: processSummaryQueue_resume_def Let_def inFlight_settlePromise)

lemma outstanding_resume:
  assumes "queueInv s" and "(task, ph) \<in> set (running s)"
  shows "outstanding (processSummaryQueue_resume task outcome s) = summaryQueue s"
    and "outstanding s = task # summaryQueue s"
proof -
  have r: "running s = [(task, ph)]" using assms by (rule queueInv_running_single)
  show "outstanding s = task # summaryQueue s" using r by (simp add: outstanding_def)
  let ?s1 = "s\<lparr> running := filter (\<lambda>(t, ph). t_promise t \<noteq> t_promise task) (running s),
                  effects := effects s @ [TaskSettled (t_promise task) (succeeded outcome)],
                  isProcessingSummaryQueue := False \<rparr>"
  have s1: "queueInv0 ?s1"
    using assms(1) r by (simp add: queueInv_def queueInv0_def outstanding_def)
  have o1: "outstanding ?s1 = summaryQueue s" using r by (simp add: outstanding_def)
  have "outstanding (if summaryQueue ?s1 \<noteq> [] then processSummaryQueue ?s1 else ?s1) = summaryQueue s"
    using outstanding_processSummaryQueue[OF s1] o1 by simp
  then show "outstanding (processSummaryQueue_resume task outcome s) = summaryQueue s"
    unfolding processSummaryQueue_resume_def Let_def outstanding_def by simp
qed

lemma flightInv_irrelevant [simp]:
  "flightInv (s\<lparr>summaryCache := c\<rparr>) = flightInv s"
  "flightInv (s\<lparr>backendLog := b\<rparr>) = flightInv s"
  "flightInv (s\<lparr>persisted := ps\<rparr>) = flightInv s"
  "flightInv (s\<lparr>effects := es\<rparr>) = flightInv s"
  by (simp_all add: flightInv_def outstanding_def)

lemma flightInv_resume:
  assumes q: "queueInv s" and f: "flightInv s" and r: "(task, ph) \<in> set (running s)"
  shows "flightInv (processSummaryQueue_resume task outcome s)"
    and "inFlightSummaries (processSummaryQueue_resume task outcome s) =
           (inFlightSummaries s)(t_id task := None)"
proof -
  let ?s' = "processSummaryQueue_resume task outcome s"
  let ?p = "t_promise task"
  note o = outstanding_resume[OF q r]
  have d: "distinct (map t_id (task # summaryQueue s))"
    using f o(2) by (simp add: flightInv_def)
  have own: "callers s ?p = Some (AwaitOwn (t_id task) (t_args task))"
    and reg: "inFlightSummaries s (t_id task) = Some ?p"
    and mem: "?p \<in> set (reactions s ?p)"
    using f o(2) by (simp_all add: flightInv_def)
  have waits: "c = ?p \<or> (\<exists>a. callers s c = Some (AwaitShared ?p a))"
    if "c \<in> set (reactions s ?p)" for c
    using f that by (auto simp: flightInv_def)
  have key: "(\<exists>c \<in> set (reactions s ?p). \<exists>a. callers s c = Some (AwaitOwn k a)) \<longleftrightarrow> k = t_id task"
    for k
    using waits own mem by fastforce
  show fl: "inFlightSummaries ?s' = (inFlightSummaries s)(t_id task := None)"
    by (rule ext) (simp add: inFlight_resume key)
  have others: "inFlightSummaries s (t_id t) = Some (t_promise t)
       \<and> callers s (t_promise t) = Some (AwaitOwn (t_id t) (t_args t))
       \<and> t_promise t \<in> set (reactions s (t_promise t))"
    if "t \<in> set (summaryQueue s)" for t
    using f o(2) that by (simp add: flightInv_def)
  have ne: "t_id t \<noteq> t_id task" if "t \<in> set (summaryQueue s)" for t
  proof
    assume e: "t_id t = t_id task"
    have "t_id t \<in> t_id ` set (summaryQueue s)" using that by (rule imageI)
    moreover have "t_id task \<notin> t_id ` set (summaryQueue s)" using d by simp
    ultimately show False using e by simp
  qed
  have pne: "t_promise t \<noteq> ?p" if "t \<in> set (summaryQueue s)" for t
    using others[OF that] own ne[OF that] by auto
  have notin: "t_promise t \<notin> set (reactions s ?p)" if "t \<in> set (summaryQueue s)" for t
    using waits[of "t_promise t"] others[OF that] pne[OF that] by auto
  have A: "distinct (map t_id (outstanding ?s'))" using d o(1) by simp
  have B: "\<forall>t \<in> set (outstanding ?s').
         inFlightSummaries ?s' (t_id t) = Some (t_promise t)
       \<and> callers ?s' (t_promise t) = Some (AwaitOwn (t_id t) (t_args t))
       \<and> t_promise t \<in> set (reactions ?s' (t_promise t))"
    using others ne pne notin by (simp add: o(1) fl callers_resume)
  have D: "\<forall>k p. inFlightSummaries ?s' k = Some p \<longrightarrow> k \<in> t_id ` set (outstanding ?s')"
  proof (intro allI impI)
    fix k p assume "inFlightSummaries ?s' k = Some p"
    then have "k \<noteq> t_id task" "inFlightSummaries s k = Some p"
      by (auto simp: fl split: if_splits)
    then show "k \<in> t_id ` set (outstanding ?s')"
      using f o by (auto simp: flightInv_def)
  qed
  have F: "\<forall>p c. c \<in> set (reactions ?s' p) \<longrightarrow>
         c = p \<or> (\<exists>a. callers ?s' c = Some (AwaitShared p a))"
  proof (intro allI impI)
    fix p c assume "c \<in> set (reactions ?s' p)"
    then have pp: "p \<noteq> ?p" and c: "c \<in> set (reactions s p)" by (auto split: if_splits)
    from f c have "c = p \<or> (\<exists>a. callers s c = Some (AwaitShared p a))"
      by (auto simp: flightInv_def)
    then show "c = p \<or> (\<exists>a. callers ?s' c = Some (AwaitShared p a))"
    proof
      assume "c = p" then show ?thesis by simp
    next
      assume sh: "\<exists>a. callers s c = Some (AwaitShared p a)"
      then have "c \<notin> set (reactions s ?p)" using waits[of c] own pp by auto
      then show ?thesis using sh by (simp add: callers_resume)
    qed
  qed
  have G: "\<forall>p. reactions ?s' p \<noteq> [] \<longrightarrow> p \<in> t_promise ` set (outstanding ?s')"
  proof (intro allI impI)
    fix p assume "reactions ?s' p \<noteq> []"
    then have "p \<noteq> ?p" "reactions s p \<noteq> []" by (auto split: if_splits)
    then show "p \<in> t_promise ` set (outstanding ?s')"
      using f o by (auto simp: flightInv_def)
  qed
  have I: "\<forall>c. callers ?s' c \<noteq> None \<longrightarrow> c < nextCaller ?s'"
    using f by (auto simp: flightInv_def callers_resume resumed_def split: if_splits option.splits)
  show "flightInv ?s'"
    unfolding flightInv_def using A B D F G I by blast
qed

lemma outstanding_setPhase [simp]: "outstanding (setPhase p ph s) = outstanding s"
  by (simp add: outstanding_def)

lemma outstanding_irrelevant [simp]:
  "outstanding (s\<lparr>summaryCache := c\<rparr>) = outstanding s"
  "outstanding (s\<lparr>inFlightSummaries := f\<rparr>) = outstanding s"
  "outstanding (s\<lparr>reactions := r\<rparr>) = outstanding s"
  "outstanding (s\<lparr>callers := cs\<rparr>) = outstanding s"
  "outstanding (s\<lparr>nextCaller := n\<rparr>) = outstanding s"
  "outstanding (s\<lparr>backendLog := b\<rparr>) = outstanding s"
  "outstanding (s\<lparr>persisted := ps\<rparr>) = outstanding s"
  "outstanding (s\<lparr>effects := es\<rparr>) = outstanding s"
  by (simp_all add: outstanding_def)

lemma flightInv_setPhase: "flightInv s \<Longrightarrow> flightInv (setPhase p ph s)"
  by (simp add: flightInv_def)

lemma flightInv_initial: "flightInv (initial c slot)"
  by (simp add: flightInv_def initial_def outstanding_def)

lemma flightInv_owner:
  "flightInv s \<Longrightarrow> t \<in> set (outstanding s) \<Longrightarrow>
   callers s (t_promise t) = Some (AwaitOwn (t_id t) (t_args t))"
  by (simp add: flightInv_def)

lemma flightInv_member:
  "flightInv s \<Longrightarrow> c \<in> set (reactions s p) \<Longrightarrow>
   (\<exists>k a. callers s c = Some (AwaitOwn k a)) \<or> (\<exists>a. callers s c = Some (AwaitShared p a))"
proof -
  assume f: "flightInv s" and c: "c \<in> set (reactions s p)"
  then have "c = p \<or> (\<exists>a. callers s c = Some (AwaitShared p a))" by (auto simp: flightInv_def)
  moreover have "\<exists>k a. callers s p = Some (AwaitOwn k a)"
  proof -
    from c have "reactions s p \<noteq> []" by auto
    with f obtain t where "t \<in> set (outstanding s)" "t_promise t = p"
      by (auto simp: flightInv_def)
    with f show ?thesis using flightInv_owner by fastforce
  qed
  ultimately show ?thesis by auto
qed

text \<open>A caller that is in neither await on a promise can change without harm.\<close>

lemma flightInv_callers_update:
  assumes f: "flightInv s"
    and old: "\<forall>k a. callers s c \<noteq> Some (AwaitOwn k a)" "\<forall>p a. callers s c \<noteq> Some (AwaitShared p a)"
    and dom: "callers s c \<noteq> None \<or> c < nextCaller s"
  shows "flightInv (s\<lparr>callers := (callers s)(c \<mapsto> st)\<rparr>)"
proof -
  have no: "c \<noteq> t_promise t" if "t \<in> set (outstanding s)" for t
    using flightInv_owner[OF f that] old by auto
  have nm: "c \<notin> set (reactions s p)" for p
    using flightInv_member[OF f, of c p] old by auto
  show ?thesis
    using f no nm dom unfolding flightInv_def
    by (auto simp: )
qed

lemma flightInv_call: "flightInv s \<Longrightarrow> flightInv (summarize_call a opts d s)"
proof -
  assume f: "flightInv s"
  have n: "callers s (nextCaller s) = None" using f by (auto simp: flightInv_def)
  have no: "nextCaller s \<noteq> t_promise t" if "t \<in> set (outstanding s)" for t
    using flightInv_owner[OF f that] n by auto
  have nm: "nextCaller s \<notin> set (reactions s p)" for p
    using flightInv_member[OF f, of "nextCaller s" p] n by auto
  show ?thesis
    unfolding summarize_call_def Let_def flightInv_def using f no nm
    by (auto simp: flightInv_def less_Suc_eq)
qed

lemma flightInv_afterKey:
  assumes q: "queueInv s" and f: "flightInv s" and c: "callers s c = Some (AwaitKey key a)"
  shows "flightInv (summarize_afterKey c key a s)"
proof (cases "getCachedSummary (summaryCache s) key")
  case (Some cached)
  then show ?thesis
    using flightInv_callers_update[OF f, of c] c by (simp add: summarize_afterKey_def)
next
  case None
  have no: "c \<noteq> t_promise t" if "t \<in> set (outstanding s)" for t
    using flightInv_owner[OF f that] c by auto
  have nm: "c \<notin> set (reactions s p)" for p
    using flightInv_member[OF f, of c p] c by auto
  have cd: "c < nextCaller s" using f c by (auto simp: flightInv_def)
  show ?thesis
  proof (cases "inFlightSummaries s key")
    case (Some p)
    have s': "summarize_afterKey c key a s =
            s\<lparr> reactions := (reactions s)(p := reactions s p @ [c]),
               callers := (callers s)(c \<mapsto> AwaitShared p a) \<rparr>"
      using None Some by (simp add: summarize_afterKey_def)
    from f Some obtain t where t: "t \<in> set (outstanding s)" "t_id t = key"
      by (auto simp: flightInv_def)
    with f Some have tp: "t_promise t = p" by (auto simp: flightInv_def)
    show ?thesis
      unfolding s' flightInv_def using f no nm t tp cd
      by (auto simp: flightInv_def)
  next
    case None': None
    let ?t = "\<lparr> t_id = key, t_args = a, t_promise = c \<rparr>"
    let ?s1 = "enqueueSummaryTask ?t s"
    have s': "summarize_afterKey c key a s =
            ?s1\<lparr> inFlightSummaries := (inFlightSummaries ?s1)(key \<mapsto> c),
                     reactions := (reactions ?s1)(c := [c]),
                     callers := (callers ?s1)(c \<mapsto> AwaitOwn key a) \<rparr>"
      using None None' by (simp add: summarize_afterKey_def Let_def)
    have o: "outstanding ?s1 = outstanding s @ [?t]" by (rule outstanding_enqueueSummaryTask[OF q])
    have fresh: "t_id t \<noteq> key" if "t \<in> set (outstanding s)" for t
      using f None' that by (force simp: flightInv_def)
    show ?thesis
      unfolding s' flightInv_def using f no nm fresh o cd
      by (auto simp: flightInv_def)
  qed
qed

lemma activation_promise: "activation s p = Some (task, ph) \<Longrightarrow> t_promise task = p"
  unfolding activation_def by (auto simp: find_Some_iff)

lemma activation_running:
  "queueInv s \<Longrightarrow> activation s p = Some (task, ph) \<Longrightarrow> running s = [(task, ph)]"
  using activation_in_running queueInv_running_single by blast

lemma running_setPhase_single:
  "running s = [(task, ph0)] \<Longrightarrow> running (setPhase (t_promise task) ph s) = [(task, ph)]"
  by (simp add: setPhase_def)

lemma flightInv_step:
  assumes q: "queueInv s" and f: "flightInv s"
  shows "flightInv (step e s)"
proof (cases e)
  case (Call a opts d)
  then show ?thesis using f by (simp add: step_def flightInv_call)
next
  case (KeyReady c)
  then show ?thesis using q f
    by (auto simp: step_def flightInv_afterKey split: option.splits caller.splits)
next
  case (TaskFetchDone p out)
  then show ?thesis using q f
    by (auto simp: step_def runFn_afterFetch_def flightInv_setPhase flightInv_resume
        dest!: activation_in_running split: option.splits phase.splits sum.splits)
next
  case (StorageGetDone p r)
  then show ?thesis using q f
    by (auto simp: step_def setCachedSummary_afterGet_def flightInv_setPhase flightInv_resume Let_def
        dest!: activation_in_running split: option.splits phase.splits storageGet.splits)
next
  case (StorageSetDone p ok)
  have "flightInv (s\<lparr>persisted := x\<rparr>)" "queueInv (s\<lparr>persisted := x\<rparr>)" for x using q f by simp_all
  then show ?thesis using StorageSetDone q f
    by (auto simp: step_def setCachedSummary_afterSet_def intro!: flightInv_resume
        dest!: activation_in_running split: option.splits phase.splits)
next
  case (FallbackFetchDone c out)
  then show ?thesis using f flightInv_callers_update[OF f, of c]
    by (auto simp: step_def split: option.splits caller.splits)
qed

subsection \<open>The cache invariant\<close>

lemma cacheInv_irrelevant [simp]:
  "cacheInv (s\<lparr>inFlightSummaries := f\<rparr>) = cacheInv s"
  "cacheInv (s\<lparr>reactions := r\<rparr>) = cacheInv s"
  "cacheInv (s\<lparr>callers := cs\<rparr>) = cacheInv s"
  "cacheInv (s\<lparr>nextCaller := n\<rparr>) = cacheInv s"
  "cacheInv (s\<lparr>backendLog := b\<rparr>) = cacheInv s"
  "cacheInv (s\<lparr>persisted := ps\<rparr>) = cacheInv s"
  "cacheInv (s\<lparr>effects := es\<rparr>) = cacheInv s"
  "cacheInv (s\<lparr>isProcessingSummaryQueue := b'\<rparr>) = cacheInv s"
  by (simp_all add: cacheInv_def)

lemma cacheInv_cong:
  "summaryQueue s' = summaryQueue s \<Longrightarrow> running s' = running s \<Longrightarrow>
   summaryCache s' = summaryCache s \<Longrightarrow> cacheInv s' = cacheInv s"
  by (simp add: cacheInv_def)

lemma cacheInv_processSummaryQueue: "cacheInv s \<Longrightarrow> cacheInv (processSummaryQueue s)"
  by (auto simp: processSummaryQueue_def cacheInv_def split: list.splits)

lemma cacheInv_enqueueSummaryTask:
  "cacheInv s \<Longrightarrow> getCachedSummary (summaryCache s) (t_id task) = None \<Longrightarrow>
   cacheInv (enqueueSummaryTask task s)"
  unfolding enqueueSummaryTask_def
  by (rule cacheInv_processSummaryQueue) (auto simp: cacheInv_def)

lemma cacheInv_resume:
  assumes q: "queueInv s" and c: "cacheInv s" and r: "(task, ph) \<in> set (running s)"
  shows "cacheInv (processSummaryQueue_resume task outcome s)"
proof -
  have rs: "running s = [(task, ph)]" using q r by (rule queueInv_running_single)
  let ?s1 = "s\<lparr> running := filter (\<lambda>(t, ph). t_promise t \<noteq> t_promise task) (running s),
                  effects := effects s @ [TaskSettled (t_promise task) (succeeded outcome)],
                  isProcessingSummaryQueue := False \<rparr>"
  have s1: "cacheInv ?s1" using c rs by (simp add: cacheInv_def)
  have "cacheInv (if summaryQueue ?s1 \<noteq> [] then processSummaryQueue ?s1 else ?s1)"
    using s1 cacheInv_processSummaryQueue[OF s1] by simp
  then show ?thesis
    unfolding processSummaryQueue_resume_def Let_def
    by (subst cacheInv_cong[where s = "if summaryQueue ?s1 \<noteq> [] then processSummaryQueue ?s1 else ?s1"]) simp_all
qed

lemma cacheInv_initial: "cacheInv (initial c slot)"
  by (simp add: cacheInv_def initial_def)

lemma getCachedSummary_upd_other:
  "k \<noteq> k' \<Longrightarrow> getCachedSummary (c(k' \<mapsto> v)) k = getCachedSummary c k"
  by (simp add: getCachedSummary_def)

lemma cacheInv_step:
  assumes q: "queueInv s" and f: "flightInv s" and c: "cacheInv s"
  shows "cacheInv (step e s)"
proof (cases e)
  case (Call a opts d)
  then show ?thesis using c by (simp add: step_def summarize_call_def Let_def)
next
  case (KeyReady n)
  then show ?thesis using c
    by (auto simp: step_def summarize_afterKey_def Let_def cacheInv_enqueueSummaryTask
        split: option.splits caller.splits)
next
  case (TaskFetchDone p out)
  show ?thesis
  proof (cases "activation s p")
    case None
    then show ?thesis using TaskFetchDone c by (simp add: step_def)
  next
    case (Some r)
    obtain task ph where r: "r = (task, ph)" by (cases r)
    note a = Some[unfolded r]
    have rs: "running s = [(task, ph)]" using activation_running[OF q a] .
    have p: "t_promise task = p" using activation_promise[OF a] .
    show ?thesis
    proof (cases "ph = Fetching")
      case False
      then show ?thesis using TaskFetchDone a c by (cases ph) (simp_all add: step_def)
    next
      case True
      show ?thesis
      proof (cases "handleGeminiResponse out")
        case (Inl err)
        then show ?thesis using TaskFetchDone a True cacheInv_resume[OF q c, of task ph] rs
          by (simp add: step_def runFn_afterFetch_def)
      next
        case (Inr summary)
        have d: "distinct (map t_id (task # summaryQueue s))"
          using f rs by (simp add: flightInv_def outstanding_def)
        have ne: "t_id t \<noteq> t_id task" if "t \<in> set (summaryQueue s)" for t
        proof
          assume e: "t_id t = t_id task"
          have "t_id t \<in> t_id ` set (summaryQueue s)" using that by (rule imageI)
          moreover have "t_id task \<notin> t_id ` set (summaryQueue s)" using d by simp
          ultimately show False using e by simp
        qed
        have st: "step e s = setPhase p (StorageGetting summary)
                    (s\<lparr> summaryCache := (summaryCache s)(t_id task \<mapsto> summary) \<rparr>)"
          using TaskFetchDone a True Inr p by (simp add: step_def runFn_afterFetch_def)
        have run': "running (step e s) = [(task, StorageGetting summary)]"
          unfolding st using rs p by (simp add: setPhase_def)
        show ?thesis
          unfolding cacheInv_def run' using c ne
          by (simp add: st cacheInv_def getCachedSummary_upd_other)
      qed
    qed
  qed
next
  case (StorageGetDone p r)
  show ?thesis
  proof (cases "activation s p")
    case None
    then show ?thesis using StorageGetDone c by (simp add: step_def)
  next
    case (Some r')
    obtain task ph where r: "r' = (task, ph)" by (cases r')
    note a = Some[unfolded r]
    have rs: "running s = [(task, ph)]" using activation_running[OF q a] .
    have p: "t_promise task = p" using activation_promise[OF a] .
    show ?thesis
    proof (cases ph)
      case Fetching
      then show ?thesis using StorageGetDone a c by (simp add: step_def)
    next
      case (StorageSetting v raw)
      then show ?thesis using StorageGetDone a c by (simp add: step_def)
    next
      case (StorageGetting v)
      show ?thesis
      proof (cases r)
        case GetFailed
        then show ?thesis using StorageGetDone a StorageGetting cacheInv_resume[OF q c, of task ph] rs
          by (simp add: step_def setCachedSummary_afterGet_def)
      next
        case (GetValue slot)
        then show ?thesis using StorageGetDone a StorageGetting c rs p
          by (simp add: step_def setCachedSummary_afterGet_def Let_def cacheInv_def setPhase_def)
      qed
    qed
  qed
next
  case (StorageSetDone p ok)
  have "cacheInv (s\<lparr>persisted := x\<rparr>)" "queueInv (s\<lparr>persisted := x\<rparr>)" for x using q c by simp_all
  then show ?thesis using StorageSetDone q c
    by (auto simp: step_def setCachedSummary_afterSet_def intro!: cacheInv_resume
        dest!: activation_in_running split: option.splits phase.splits)
next
  case (FallbackFetchDone n out)
  then show ?thesis using c
    by (auto simp: step_def split: option.splits caller.splits)
qed

subsection \<open>The log and the backend calls across a settlement\<close>

lemma effects_resume:
  "effects (processSummaryQueue_resume task outcome s) =
     effects s @ TaskSettled (t_promise task) (succeeded outcome) #
       (case summaryQueue s of [] \<Rightarrow> [] | next # rest \<Rightarrow> [TaskStarted (t_promise next)])"
  by (simp add: processSummaryQueue_resume_def Let_def processSummaryQueue_def split: list.splits)

lemma backendLog_resume_Inr:
  "backendLog (processSummaryQueue_resume task (Inr v) s) =
     backendLog s @
       (case summaryQueue s of [] \<Rightarrow> []
        | next # rest \<Rightarrow> [generateEmailSummary_request (t_args next)])"
  by (simp add: processSummaryQueue_resume_def Let_def processSummaryQueue_def split: list.splits)

lemma queue_resume:
  "summaryQueue (processSummaryQueue_resume task outcome s) = tl (summaryQueue s)"
  by (simp add: processSummaryQueue_resume_def Let_def processSummaryQueue_def split: list.splits)

lemma running_resume:
  assumes "queueInv s" and "(task, ph) \<in> set (running s)"
  shows "running (processSummaryQueue_resume task outcome s) =
           (case summaryQueue s of [] \<Rightarrow> [] | next # rest \<Rightarrow> [(next, Fetching)])"
proof -
  have r: "running s = [(task, ph)]" using assms by (rule queueInv_running_single)
  show ?thesis using r
    by (simp add: processSummaryQueue_resume_def Let_def processSummaryQueue_def split: list.splits)
qed

subsection \<open>The backend-call invariant\<close>

lemma callsInv_irrelevant [simp]:
  "callsInv (s\<lparr>summaryCache := c\<rparr>) = callsInv s"
  "callsInv (s\<lparr>inFlightSummaries := f\<rparr>) = callsInv s"
  "callsInv (s\<lparr>reactions := r\<rparr>) = callsInv s"
  "callsInv (s\<lparr>callers := cs\<rparr>) = callsInv s"
  "callsInv (s\<lparr>nextCaller := n\<rparr>) = callsInv s"
  "callsInv (s\<lparr>persisted := ps\<rparr>) = callsInv s"
  "callsInv (s\<lparr>summaryQueue := qs\<rparr>) = callsInv s"
  "callsInv (s\<lparr>running := rs\<rparr>) = callsInv s"
  "callsInv (s\<lparr>isProcessingSummaryQueue := b\<rparr>) = callsInv s"
  by (simp_all add: callsInv_def)

lemma callsInv_processSummaryQueue: "callsInv s \<Longrightarrow> callsInv (processSummaryQueue s)"
  by (auto simp: processSummaryQueue_def callsInv_def split: list.splits)

lemma callsInv_enqueueSummaryTask: "callsInv s \<Longrightarrow> callsInv (enqueueSummaryTask task s)"
  unfolding enqueueSummaryTask_def
  by (rule callsInv_processSummaryQueue) (simp add: callsInv_def)

lemma callsInv_setPhase: "callsInv s \<Longrightarrow> callsInv (setPhase p ph s)"
  by (simp add: callsInv_def)

lemma callsInv_resume: "callsInv s \<Longrightarrow> callsInv (processSummaryQueue_resume task outcome s)"
proof (cases outcome)
  case (Inl e)
  then show ?thesis by (simp add: callsInv_def effects_resume succeeded_def)
next
  case (Inr v)
  assume "callsInv s"
  then show ?thesis using Inr
    by (auto simp: callsInv_def effects_resume backendLog_resume_Inr succeeded_def split: list.splits)
qed

lemma callsInv_initial: "callsInv (initial c slot)"
  by (simp add: callsInv_def initial_def)

lemma callsInv_step: "callsInv s \<Longrightarrow> callsInv (step e s)"
proof (cases e)
  case (Call a opts d)
  assume "callsInv s" then show ?thesis using Call by (simp add: step_def summarize_call_def Let_def)
next
  case (KeyReady c)
  assume "callsInv s" then show ?thesis using KeyReady
    by (auto simp: step_def summarize_afterKey_def Let_def callsInv_enqueueSummaryTask
        split: option.splits caller.splits)
next
  case (TaskFetchDone p out)
  assume "callsInv s" then show ?thesis using TaskFetchDone
    by (auto simp: step_def runFn_afterFetch_def callsInv_setPhase callsInv_resume
        split: option.splits phase.splits sum.splits)
next
  case (StorageGetDone p r)
  assume "callsInv s" then show ?thesis using StorageGetDone
    by (auto simp: step_def setCachedSummary_afterGet_def callsInv_setPhase callsInv_resume Let_def
        split: option.splits phase.splits storageGet.splits)
next
  case (StorageSetDone p ok)
  assume "callsInv s" then show ?thesis using StorageSetDone
    by (auto simp: step_def setCachedSummary_afterSet_def callsInv_resume
        split: option.splits phase.splits)
next
  case (FallbackFetchDone c out)
  assume "callsInv s" then show ?thesis using FallbackFetchDone
    by (auto simp: step_def split: option.splits caller.splits)
qed

subsection \<open>Every state the machine reaches\<close>

lemma machineInv_initial: "machineInv (initial c slot)"
  by (simp add: machineInv_def queueInv_initial flightInv_initial cacheInv_initial callsInv_initial)

lemma machineInv_step: "machineInv s \<Longrightarrow> machineInv (step e s)"
  by (simp add: machineInv_def queueInv_step flightInv_step cacheInv_step callsInv_step)

lemma machineInv_run: "machineInv s \<Longrightarrow> machineInv (run es s)"
  unfolding run_def by (induction es arbitrary: s) (simp_all add: machineInv_step)

lemma reachable_machineInv: "reachable s \<Longrightarrow> machineInv s"
  by (auto simp: reachable_def machineInv_run machineInv_initial)

lemma reachable_initial: "reachable (initial c slot)"
  unfolding reachable_def run_def by (rule exI[of _ "[]"]) auto

lemma run_append: "run (es @ es') s = run es' (run es s)"
  by (simp add: run_def)

lemma reachable_run: "reachable s \<Longrightarrow> reachable (run es s)"
  unfolding reachable_def by (metis run_append)

lemma reachable_step: "reachable s \<Longrightarrow> reachable (step e s)"
  using reachable_run[of s "[e]"] by (simp add: run_def)

section \<open>The queue and the single-flight tracker: the claims\<close>

lemmas run_defs =
  run_def step_def initial_def fresh_def sameKeyCalls_def twoKeyCalls_def callToEnd_def
  summarize_call_def summarize_afterKey_def mailA_def withId_def okResponse_def bodyWith_def
  computeSummaryId_def typeofString_def getCachedSummary_def enqueueSummaryTask_def
  processSummaryQueue_def activation_def runFn_afterFetch_def handleGeminiResponse_def
  response_ok_def optChain_def trim_def isJsSpace_def setPhase_def
  setCachedSummary_afterGet_def setCachedSummary_afterSet_def processSummaryQueue_resume_def
  settlePromise_def resumeCaller_def afterTask_def succeeded_def fallbackCall_def strOr_def

lemma reachable_fresh_run: "reachable (run es fresh)"
  unfolding fresh_def reachable_def by blast

lemma resumed_own_failure:
  "resumed (Inl e) (Some (AwaitOwn key a)) = Some AwaitFallback"
  by (simp add: resumed_def)

text \<open>
  C2: in every state the machine reaches, the tasks started are the first tasks
  enqueued, in the order they were enqueued, and the others wait in the queue in that
  order; the log is serial, so a task starts only when the one before it has settled,
  and at most one run function is active; when the running task settles, with a
  result or with a failure, and another task waits, that task starts in the same
  turn and the queue is its tail; and a task whose backend call fails is settled as
  failed, its caller resumes in its \<open>catch\<close>, and the runner goes on as after a success.
\<close>

theorem queue_fifo_one_at_a_time:
  assumes "reachable s"
  shows "enqueuedIn (effects s) = startedIn (effects s) @ map t_promise (summaryQueue s)
       \<and> serial None (effects s)
       \<and> length (running s) \<le> 1
       \<and> (\<forall>task ph outcome next rest.
            (task, ph) \<in> set (running s) \<and> summaryQueue s = next # rest \<longrightarrow>
              effects (processSummaryQueue_resume task outcome s)
                = effects s @ [TaskSettled (t_promise task) (succeeded outcome),
                               TaskStarted (t_promise next)]
            \<and> running (processSummaryQueue_resume task outcome s) = [(next, Fetching)]
            \<and> summaryQueue (processSummaryQueue_resume task outcome s) = rest)
       \<and> (\<forall>p task out e.
            activation s p = Some (task, Fetching) \<and> handleGeminiResponse out = Inl e \<longrightarrow>
              step (TaskFetchDone p out) s = processSummaryQueue_resume task (Inl e) s
            \<and> callers (step (TaskFetchDone p out) s) p = Some AwaitFallback)"
proof -
  have i: "machineInv s" using assms by (rule reachable_machineInv)
  then have q: "queueInv s" and f: "flightInv s" by (simp_all add: machineInv_def)
  have 1: "enqueuedIn (effects s) = startedIn (effects s) @ map t_promise (summaryQueue s)"
    using q by (simp add: queueInv_def queueInv0_def outstanding_def)
  have 2: "serial None (effects s)" and 3: "length (running s) \<le> 1"
    using q by (simp_all add: queueInv_def queueInv0_def)
  have 4: "effects (processSummaryQueue_resume task outcome s)
                = effects s @ [TaskSettled (t_promise task) (succeeded outcome),
                               TaskStarted (t_promise next)]
            \<and> running (processSummaryQueue_resume task outcome s) = [(next, Fetching)]
            \<and> summaryQueue (processSummaryQueue_resume task outcome s) = rest"
    if "(task, ph) \<in> set (running s) \<and> summaryQueue s = next # rest"
    for task ph outcome "next" rest
    using that running_resume[OF q, of task ph outcome]
    by (simp add: effects_resume queue_resume)
  have 5: "step (TaskFetchDone p out) s = processSummaryQueue_resume task (Inl e) s
            \<and> callers (step (TaskFetchDone p out) s) p = Some AwaitFallback"
    if h: "activation s p = Some (task, Fetching) \<and> handleGeminiResponse out = Inl e"
    for p task out e
  proof -
    have st: "step (TaskFetchDone p out) s = processSummaryQueue_resume task (Inl e) s"
      using h by (simp add: step_def runFn_afterFetch_def)
    have p: "t_promise task = p" using h activation_promise by blast
    have r: "running s = [(task, Fetching)]" using h activation_running[OF q] by blast
    then have o: "task \<in> set (outstanding s)" by (simp add: outstanding_def)
    have own: "callers s p = Some (AwaitOwn (t_id task) (t_args task))"
      and mem: "p \<in> set (reactions s p)"
      using f o p by (auto simp: flightInv_def)
    show ?thesis
      unfolding st using own mem p by (simp add: callers_resume resumed_own_failure)
  qed
  show ?thesis using 1 2 3 4 5 by blast
qed

theorem queue_fifo_one_at_a_time_witness:
  "reachable (run twoKeyCalls fresh)
   \<and> enqueuedIn (effects (run twoKeyCalls fresh)) = [0, 1]
   \<and> startedIn (effects (run twoKeyCalls fresh)) = [0]
   \<and> activation (run twoKeyCalls fresh) 0
       = Some (\<lparr> t_id = ''mid:a'', t_args = mailA, t_promise = 0 \<rparr>, Fetching)
   \<and> handleGeminiResponse FetchFailed = Inl NetworkError
   \<and> effects (step (TaskFetchDone 0 FetchFailed) (run twoKeyCalls fresh))
       = [TaskEnqueued 0, TaskStarted 0, TaskEnqueued 1, TaskSettled 0 False, TaskStarted 1]
   \<and> callers (step (TaskFetchDone 0 FetchFailed) (run twoKeyCalls fresh)) 0 = Some AwaitFallback"
  using queue_fifo_one_at_a_time[OF reachable_fresh_run[of twoKeyCalls]]
        reachable_fresh_run[of twoKeyCalls]
  by (simp add: run_defs)

lemma activation_single: "running s = [(task, ph)] \<Longrightarrow> activation s (t_promise task) = Some (task, ph)"
  by (simp add: activation_def)

text \<open>
  The tracker while tasks succeed. In every state the machine reaches, no two
  outstanding tasks have the same key; a call that gets its key while a task for that
  key is outstanding enqueues nothing and calls no backend: it awaits the promise of
  that task, or, when the backend has already answered and the answer is in the cache,
  returns that answer; when the task settles with a result, its enqueuer and every
  caller awaiting its promise return that result, and no backend call is made for
  them; when it settles, with a result or with a failure, the in-flight registration
  of its key is removed; and as long as no task has failed, the backend calls are
  one per started task.
\<close>

lemma single_flight_while_tasks_succeed:
  assumes "reachable s"
  shows "distinct (map t_id (outstanding s))
    \<and> (\<forall>c key a. callers s c = Some (AwaitKey key a) \<and> key \<in> t_id ` set (outstanding s) \<longrightarrow>
          outstanding (step (KeyReady c) s) = outstanding s
        \<and> backendLog (step (KeyReady c) s) = backendLog s
        \<and> (\<exists>t \<in> set (outstanding s). t_id t = key \<and>
             (callers (step (KeyReady c) s) c = Some (AwaitShared (t_promise t) a)
                \<and> c \<in> set (reactions (step (KeyReady c) s) (t_promise t))
              \<or> (\<exists>v. callers (step (KeyReady c) s) c = Some (Returned (Inr v))
                    \<and> ((t, StorageGetting v) \<in> set (running s)
                         \<or> (\<exists>raw. (t, StorageSetting v raw) \<in> set (running s)))))))
    \<and> (\<forall>task ph v. (task, ph) \<in> set (running s) \<longrightarrow>
          t_promise task \<in> set (reactions s (t_promise task))
        \<and> (\<forall>c \<in> set (reactions s (t_promise task)).
              callers (processSummaryQueue_resume task (Inr v) s) c = Some (Returned (Inr v)))
        \<and> backendLog (processSummaryQueue_resume task (Inr v) s) =
            backendLog s @ (case summaryQueue s of [] \<Rightarrow> []
                            | next # rest \<Rightarrow> [generateEmailSummary_request (t_args next)]))
    \<and> (\<forall>task ph outcome. (task, ph) \<in> set (running s) \<longrightarrow>
          inFlightSummaries s (t_id task) = Some (t_promise task)
        \<and> inFlightSummaries (processSummaryQueue_resume task outcome s) (t_id task) = None)
    \<and> (failedIn (effects s) = [] \<longrightarrow> length (backendLog s) = length (startedIn (effects s)))"
proof -
  have i: "machineInv s" using assms by (rule reachable_machineInv)
  then have q: "queueInv s" and f: "flightInv s" and ci: "cacheInv s" and cl: "callsInv s"
    by (simp_all add: machineInv_def)
  have 1: "distinct (map t_id (outstanding s))" using f by (simp add: flightInv_def)
  have 2: "outstanding (step (KeyReady c) s) = outstanding s
        \<and> backendLog (step (KeyReady c) s) = backendLog s
        \<and> (\<exists>t \<in> set (outstanding s). t_id t = key \<and>
             (callers (step (KeyReady c) s) c = Some (AwaitShared (t_promise t) a)
                \<and> c \<in> set (reactions (step (KeyReady c) s) (t_promise t))
              \<or> (\<exists>v. callers (step (KeyReady c) s) c = Some (Returned (Inr v))
                    \<and> ((t, StorageGetting v) \<in> set (running s)
                         \<or> (\<exists>raw. (t, StorageSetting v raw) \<in> set (running s))))))"
    if h: "callers s c = Some (AwaitKey key a) \<and> key \<in> t_id ` set (outstanding s)" for c key a
  proof -
    from h obtain t where t: "t \<in> set (outstanding s)" "t_id t = key" by auto
    have reg: "inFlightSummaries s key = Some (t_promise t)"
      using f t by (auto simp: flightInv_def)
    have st: "step (KeyReady c) s = summarize_afterKey c key a s"
      using h by (simp add: step_def)
    show ?thesis
    proof (cases "getCachedSummary (summaryCache s) key")
      case None
      then show ?thesis using t reg unfolding st
        by (auto simp: summarize_afterKey_def)
    next
      case (Some v)
      then have cv: "summaryCache s key = Some v" 
        by (auto simp: getCachedSummary_def split: option.splits if_splits)
      have "t \<notin> set (summaryQueue s)" using ci Some t(2) by (auto simp: cacheInv_def)
      with t(1) obtain ph where ph: "(t, ph) \<in> set (running s)"
        by (auto simp: outstanding_def)
      with ci have "phaseOk (summaryCache s) (t, ph)" by (auto simp: cacheInv_def)
      with Some cv t(2) have "ph = StorageGetting v \<or> (\<exists>raw. ph = StorageSetting v raw)"
        by (cases ph) auto
      then show ?thesis using Some t ph unfolding st
        by (auto simp: summarize_afterKey_def)
    qed
  qed
  have 3: "t_promise task \<in> set (reactions s (t_promise task))
        \<and> (\<forall>c \<in> set (reactions s (t_promise task)).
              callers (processSummaryQueue_resume task (Inr v) s) c = Some (Returned (Inr v)))
        \<and> backendLog (processSummaryQueue_resume task (Inr v) s) =
            backendLog s @ (case summaryQueue s of [] \<Rightarrow> []
                            | next # rest \<Rightarrow> [generateEmailSummary_request (t_args next)])"
    if h: "(task, ph) \<in> set (running s)" for task ph v
  proof -
    have o: "task \<in> set (outstanding s)" using h by (force simp: outstanding_def)
    have mem: "t_promise task \<in> set (reactions s (t_promise task))"
      using f o by (auto simp: flightInv_def)
    have "callers (processSummaryQueue_resume task (Inr v) s) c = Some (Returned (Inr v))"
      if "c \<in> set (reactions s (t_promise task))" for c
      using flightInv_member[OF f that] that
      by (auto simp: callers_resume resumed_def)
    then show ?thesis using mem by (simp add: backendLog_resume_Inr)
  qed
  have 4: "inFlightSummaries s (t_id task) = Some (t_promise task)
        \<and> inFlightSummaries (processSummaryQueue_resume task outcome s) (t_id task) = None"
    if h: "(task, ph) \<in> set (running s)" for task ph outcome
  proof -
    have o: "task \<in> set (outstanding s)" using h by (force simp: outstanding_def)
    show ?thesis using f o flightInv_resume(2)[OF q f h, of outcome]
      by (auto simp: flightInv_def)
  qed
  have 5: "failedIn (effects s) = [] \<longrightarrow> length (backendLog s) = length (startedIn (effects s))"
    using cl by (simp add: callsInv_def)
  show ?thesis using 1 2 3 4 5 by blast
qed

lemma single_flight_while_tasks_succeed_example:
  "reachable awaitingShared
   \<and> callers awaitingShared 1 = Some (AwaitKey ''mid:a'' mailA)
   \<and> ''mid:a'' \<in> t_id ` set (outstanding awaitingShared)
   \<and> outstanding (step (KeyReady 1) awaitingShared) = outstanding awaitingShared
   \<and> callers (step (KeyReady 1) awaitingShared) 1 = Some (AwaitShared 0 mailA)
   \<and> backendLog (step (KeyReady 1) awaitingShared) = backendLog awaitingShared
   \<and> reachable persisting
   \<and> running persisting
       = [(\<lparr> t_id = ''mid:a'', t_args = mailA, t_promise = 0 \<rparr>,
           StorageSetting ''sum'' [''mid:a'' \<mapsto> ''sum''])]
   \<and> reactions persisting 0 = [0, 1]
   \<and> callers (step (StorageSetDone 0 True) persisting) 0 = Some (Returned (Inr ''sum''))
   \<and> callers (step (StorageSetDone 0 True) persisting) 1 = Some (Returned (Inr ''sum''))
   \<and> length (backendLog (step (StorageSetDone 0 True) persisting)) = 1
   \<and> inFlightSummaries (step (StorageSetDone 0 True) persisting) ''mid:a'' = None"
proof -
  have r1: "reachable awaitingShared" and r2: "reachable persisting"
    unfolding awaitingShared_def persisting_def by (rule reachable_fresh_run)+
  show ?thesis
    using single_flight_while_tasks_succeed[OF r1] single_flight_while_tasks_succeed[OF r2] r1 r2
    by (simp add: awaitingShared_def persisting_def run_defs outstanding_def)
qed

text \<open>
  C1, the code at the failing input: two calls for one key, the second made before
  the first has settled, and the backend call of the task fails. Before the failure
  the two calls share one task and one backend call. The rejected promise of the task
  then reaches the outer \<open>catch\<close> of the wrapper in both calls, and each of them
  calls the backend again on its own: three backend calls have been made for the
  two callers, and they return the two different texts of their own calls. The
  registration in flight is removed.
\<close>

theorem single_flight_lost_when_task_fails:
  "callers (run sameKeyCalls fresh) 0 = Some (AwaitOwn ''mid:a'' mailA)
   \<and> callers (run sameKeyCalls fresh) 1 = Some (AwaitShared 0 mailA)
   \<and> backendLog (run sameKeyCalls fresh) = [generateEmailSummary_request mailA]
   \<and> callers (run (sameKeyCalls @ [TaskFetchDone 0 FetchFailed]) fresh) 0 = Some AwaitFallback
   \<and> callers (run (sameKeyCalls @ [TaskFetchDone 0 FetchFailed]) fresh) 1 = Some AwaitFallback
   \<and> inFlightSummaries (run (sameKeyCalls @ [TaskFetchDone 0 FetchFailed]) fresh) ''mid:a'' = None
   \<and> backendLog (run sharedTaskFails fresh)
        = [generateEmailSummary_request mailA, generateEmailSummary_request mailA,
           generateEmailSummary_request mailA]
   \<and> callers (run sharedTaskFails fresh) 0 = Some (Returned (Inr ''x''))
   \<and> callers (run sharedTaskFails fresh) 1 = Some (Returned (Inr ''y''))"
  by (simp add: run_defs sharedTaskFails_def)

section \<open>The delay between backend calls\<close>

lemma no_delay_step: "Delayed ms \<in> set (effects (step e s)) \<Longrightarrow> Delayed ms \<in> set (effects s)"
proof (cases e)
  case (Call a opts d)
  assume "Delayed ms \<in> set (effects (step e s))"
  then show ?thesis using Call by (simp add: step_def summarize_call_def Let_def)
next
  case (KeyReady c)
  assume "Delayed ms \<in> set (effects (step e s))"
  then show ?thesis using KeyReady
    by (auto simp: step_def summarize_afterKey_def Let_def enqueueSummaryTask_def
          processSummaryQueue_def split: option.splits caller.splits list.splits if_splits)
next
  case (TaskFetchDone p out)
  assume "Delayed ms \<in> set (effects (step e s))"
  then show ?thesis using TaskFetchDone
    by (auto simp: step_def runFn_afterFetch_def effects_resume
          split: option.splits phase.splits sum.splits list.splits)
next
  case (StorageGetDone p r)
  assume "Delayed ms \<in> set (effects (step e s))"
  then show ?thesis using StorageGetDone
    by (auto simp: step_def setCachedSummary_afterGet_def effects_resume Let_def
          split: option.splits phase.splits storageGet.splits list.splits)
next
  case (StorageSetDone p ok)
  assume "Delayed ms \<in> set (effects (step e s))"
  then show ?thesis using StorageSetDone
    by (auto simp: step_def setCachedSummary_afterSet_def effects_resume
          split: option.splits phase.splits list.splits if_splits)
next
  case (FallbackFetchDone c out)
  assume "Delayed ms \<in> set (effects (step e s))"
  then show ?thesis using FallbackFetchDone
    by (auto simp: step_def split: option.splits caller.splits)
qed

lemma no_delay_run: "Delayed ms \<in> set (effects (run es s)) \<Longrightarrow> Delayed ms \<in> set (effects s)"
  unfolding run_def by (induction es arbitrary: s) (auto dest: no_delay_step)

lemma no_delay_reachable: "reachable s \<Longrightarrow> Delayed ms \<notin> set (effects s)"
  unfolding reachable_def by (auto dest!: no_delay_run simp: initial_def)

lemma spaced_snoc:
  "spaced m trace \<Longrightarrow> spaced m (trace @ [SummaryAwaited a opts, DelayAwaited m])"
  by (induction m trace rule: spaced.induct) simp_all

lemma spaced_batch:
  "spaced 500 trace \<Longrightarrow>
   spaced 500 (snd (snd (generateMultiEmailSummaries summ cacheOf message emails
                            (w, summaries, trace))))"
proof (induction emails arbitrary: w summaries trace)
  case Nil
  then show ?case by simp
next
  case (Cons email rest)
  show ?case
  proof (cases "rowCached (cacheOf w) email")
    case (Some cached)
    then show ?thesis using Cons by simp
  next
    case None
    obtain r w' where s: "summ (rowArgs email) (rowOptions email) w = (r, w')"
      by (cases "summ (rowArgs email) (rowOptions email) w")
    show ?thesis using None s Cons.IH[OF spaced_snoc[OF Cons.prems]] by simp
  qed
qed

text \<open>How many summaries the loop awaited, and how many delays.\<close>

lemma counts_batch:
  "length (filter (\<lambda>x. case x of DelayAwaited ms \<Rightarrow> True | _ \<Rightarrow> False) trace)
     = length (filter (\<lambda>x. case x of SummaryAwaited a opts \<Rightarrow> True | _ \<Rightarrow> False) trace) \<Longrightarrow>
   length (filter (\<lambda>x. case x of DelayAwaited ms \<Rightarrow> True | _ \<Rightarrow> False)
      (snd (snd (generateMultiEmailSummaries summ cacheOf message emails (w, summaries, trace)))))
     = length (filter (\<lambda>x. case x of SummaryAwaited a opts \<Rightarrow> True | _ \<Rightarrow> False)
      (snd (snd (generateMultiEmailSummaries summ cacheOf message emails (w, summaries, trace)))))"
proof (induction emails arbitrary: w summaries trace)
  case Nil
  then show ?case by simp
next
  case (Cons email rest)
  show ?case
  proof (cases "rowCached (cacheOf w) email")
    case (Some cached)
    then show ?thesis using Cons by simp
  next
    case None
    obtain r w' where s: "summ (rowArgs email) (rowOptions email) w = (r, w')"
      by (cases "summ (rowArgs email) (rowOptions email) w")
    show ?thesis using None s Cons.prems by (simp add: Cons.IH)
  qed
qed


text \<open>
  The batch loop \<open>generateMultiEmailSummaries\<close> is where the delay is: every
  summary it awaits, whether it comes back or fails, is followed by a delay of 500 ms
  before the next row, and a row served from the cache has neither the call nor the
  delay.
\<close>

lemma batch_loop_cached_row:
  "rowCached (cacheOf w) email = Some cached \<Longrightarrow>
   generateMultiEmailSummaries summ cacheOf message (email # rest) (w, summaries, trace)
     = generateMultiEmailSummaries summ cacheOf message rest
         (w, summaries @ [(email, cached)], trace)"
  by simp

lemma batch_loop_called_row:
  "rowCached (cacheOf w) email = None \<Longrightarrow>
   summ (rowArgs email) (rowOptions email) w = (r, w') \<Longrightarrow>
   generateMultiEmailSummaries summ cacheOf message (email # rest) (w, summaries, trace)
     = generateMultiEmailSummaries summ cacheOf message rest
         (w',
          summaries @ [(email, (case r of
                                  Inr summary \<Rightarrow> summary
                                | Inl e \<Rightarrow> ''Error generating summary: '' @ message e))],
          trace @ [SummaryAwaited (rowArgs email) (rowOptions email), DelayAwaited 500])"
  by simp

lemma batch_loop_waits_after_each_call:
  "spaced 500 (snd (snd (generateMultiEmailSummaries summ cacheOf message emails (w, [], []))))
   \<and> length (filter (\<lambda>x. case x of DelayAwaited ms \<Rightarrow> True | _ \<Rightarrow> False)
        (snd (snd (generateMultiEmailSummaries summ cacheOf message emails (w, [], [])))))
     = length (filter (\<lambda>x. case x of SummaryAwaited a opts \<Rightarrow> True | _ \<Rightarrow> False)
        (snd (snd (generateMultiEmailSummaries summ cacheOf message emails (w, [], [])))))"
  using spaced_batch[of "[]" summ cacheOf message emails w "[]"]
        counts_batch[of "[]" summ cacheOf message emails w "[]"]
  by simp

lemma batch_loop_example:
  "snd (snd (generateMultiEmailSummaries (\<lambda>a opts w. (Inr ''sum'', w)) (\<lambda>w. [''mid:b'' \<mapsto> ''old''])
                (\<lambda>e. ''failed'') [rowA, rowB, rowA] ((), [], [])))
     = [SummaryAwaited (rowArgs rowA) (rowOptions rowA), DelayAwaited 500,
        SummaryAwaited (rowArgs rowA) (rowOptions rowA), DelayAwaited 500]"
  by (simp add: rowCached_def getCachedSummary_def rowA_def rowB_def)

text \<open>
  C3, the code at the failing input: the batch loop asks for the summary of a row
  and, while the task of that call is running, an email is opened and its summary
  is asked for. The queue runner waits for nothing: the first task settles, with a
  result or with a failure, and the second starts in the same turn, so the two
  backend calls follow each other with no delay between them.
\<close>

theorem queue_runner_inserts_no_delay:
  "summaryQueue (run rowAndOpenedEmail fresh)
     = [\<lparr> t_id = ''mid:b'', t_args = mailA, t_promise = 1 \<rparr>]
   \<and> effects (run (rowAndOpenedEmail @ [TaskFetchDone 0 (okResponse ''sum''),
                   StorageGetDone 0 (GetValue None), StorageSetDone 0 True]) fresh)
     = [TaskEnqueued 0, TaskStarted 0, TaskEnqueued 1, TaskSettled 0 True, TaskStarted 1]
   \<and> backendLog (run (rowAndOpenedEmail @ [TaskFetchDone 0 (okResponse ''sum''),
                   StorageGetDone 0 (GetValue None), StorageSetDone 0 True]) fresh)
     = [generateEmailSummary_request mailA, generateEmailSummary_request mailA]
   \<and> \<not> delayedSince None 500
       (effects (run (rowAndOpenedEmail @ [TaskFetchDone 0 (okResponse ''sum''),
                        StorageGetDone 0 (GetValue None), StorageSetDone 0 True]) fresh))
   \<and> effects (run (rowAndOpenedEmail @ [TaskFetchDone 0 FetchFailed]) fresh)
     = [TaskEnqueued 0, TaskStarted 0, TaskEnqueued 1, TaskSettled 0 False, TaskStarted 1]
   \<and> \<not> delayedSince None 500
       (effects (run (rowAndOpenedEmail @ [TaskFetchDone 0 FetchFailed]) fresh))"
  by (simp add: run_defs rowAndOpenedEmail_def noOptions_def messagePage_def emptyPage_def
        getOpenMessageIdFromDOM_def elOr_def)

section \<open>The cache: the claims\<close>

lemma cache_step:
  "summaryCache (step e s) =
     (case e of
        TaskFetchDone p out \<Rightarrow>
          (case activation s p of
             Some (task, Fetching) \<Rightarrow>
               (case handleGeminiResponse out of
                  Inr v \<Rightarrow> (summaryCache s)(t_id task \<mapsto> v)
                | Inl err \<Rightarrow> summaryCache s)
           | _ \<Rightarrow> summaryCache s)
      | _ \<Rightarrow> summaryCache s)"
  by (cases e)
     (auto simp: step_def summarize_call_def summarize_afterKey_def Let_def runFn_afterFetch_def
        setCachedSummary_afterGet_def setCachedSummary_afterSet_def
        split: option.splits caller.splits phase.splits sum.splits storageGet.splits)

lemma cache_dom_step: "k \<in> dom (summaryCache s) \<Longrightarrow> k \<in> dom (summaryCache (step e s))"
  by (auto simp: cache_step split: event.splits option.splits phase.splits sum.splits)

lemma cache_dom_run: "k \<in> dom (summaryCache s) \<Longrightarrow> k \<in> dom (summaryCache (run es s))"
  unfolding run_def by (induction es arbitrary: s) (simp_all add: cache_dom_step)

lemma cache_value_step:
  assumes i: "machineInv s" and c: "summaryCache s k = Some v" and v: "v \<noteq> []"
  shows "summaryCache (step e s) k = Some v"
proof -
  have "t_id task \<noteq> k" if a: "activation s p = Some (task, Fetching)" for p task
  proof
    assume e: "t_id task = k"
    have "(task, Fetching) \<in> set (running s)" using a by (rule activation_in_running)
    with i have "phaseOk (summaryCache s) (task, Fetching)"
      by (auto simp: machineInv_def cacheInv_def)
    then show False using c v e by (simp add: getCachedSummary_def)
  qed
  then show ?thesis using c
    by (auto simp: cache_step split: event.splits option.splits phase.splits sum.splits)
qed

lemma cache_value_run:
  "machineInv s \<Longrightarrow> summaryCache s k = Some v \<Longrightarrow> v \<noteq> [] \<Longrightarrow>
   summaryCache (run es s) k = Some v"
  unfolding run_def
  by (induction es arbitrary: s) (simp_all add: cache_value_step machineInv_step)

lemma hit_step:
  assumes "summaryCache s key = Some v" and "v \<noteq> []" and "callers s c = Some (AwaitKey key a)"
  shows "step (KeyReady c) s = s\<lparr> callers := (callers s)(c \<mapsto> Returned (Inr v)) \<rparr>"
  using assms by (simp add: step_def summarize_afterKey_def getCachedSummary_def)


lemma idle_fields:
  assumes i: "machineInv s" and o: "outstanding s = []"
  shows "running s = []" "summaryQueue s = []" "\<not> isProcessingSummaryQueue s"
    "inFlightSummaries s key = None"
proof -
  show r: "running s = []" and "summaryQueue s = []" using o by (simp_all add: outstanding_def)
  show "\<not> isProcessingSummaryQueue s"
    using i r by (simp add: machineInv_def queueInv_def queueInv0_def)
  show "inFlightSummaries s key = None"
  proof (cases "inFlightSummaries s key")
    case None then show ?thesis .
  next
    case (Some p)
    with i have "key \<in> t_id ` set (outstanding s)"
      by (simp add: machineInv_def flightInv_def)
    with o show ?thesis by simp
  qed
qed

lemmas call_defs =
  run_def oneCall_def step_def summarize_call_def summarize_afterKey_def
  enqueueSummaryTask_def processSummaryQueue_def activation_def runFn_afterFetch_def
  setPhase_def setCachedSummary_afterGet_def setCachedSummary_afterSet_def
  processSummaryQueue_resume_def settlePromise_def resumeCaller_def afterTask_def
  succeeded_def fallbackCall_def

lemma first_call_alone:
  assumes i: "machineInv s" and o: "outstanding s = []"
    and r: "callers (run (oneCall a opts d (nextCaller s) out g ok) s) (nextCaller s)
              = Some (Returned (Inr v))"
  shows "getCachedSummary (summaryCache (run (oneCall a opts d (nextCaller s) out g ok) s))
           (computeSummaryId (opt_id opts) (emailSubject a) (emailContent a)
              (Some (strOr (opt_time opts) [])) d) = (if v = [] then None else Some v)"
    and "length (backendLog (run (oneCall a opts d (nextCaller s) out g ok) s))
           \<le> length (backendLog s) + 1"
    and "nextCaller (run (oneCall a opts d (nextCaller s) out g ok) s) = Suc (nextCaller s)"
proof -
  note f = idle_fields[OF i o]
  let ?key = "computeSummaryId (opt_id opts) (emailSubject a) (emailContent a)
              (Some (strOr (opt_time opts) [])) d"
  have all: "getCachedSummary (summaryCache (run (oneCall a opts d (nextCaller s) out g ok) s)) ?key
               = (if v = [] then None else Some v)
     \<and> length (backendLog (run (oneCall a opts d (nextCaller s) out g ok) s))
           \<le> length (backendLog s) + 1
     \<and> nextCaller (run (oneCall a opts d (nextCaller s) out g ok) s) = Suc (nextCaller s)"
  proof (cases "getCachedSummary (summaryCache s) ?key")
    case (Some w)
    then have "w \<noteq> []" by (auto simp: getCachedSummary_def split: option.splits if_splits)
    then show ?thesis using Some r f(1,2,3)
      by (auto simp: call_defs Let_def)
  next
    case None
    show ?thesis
    proof (cases "handleGeminiResponse out")
      case (Inl e)
      then show ?thesis using r None f
        by (simp add: call_defs Let_def)
    next
      case (Inr summary)
      show ?thesis
      proof (cases g)
        case GetFailed
        then show ?thesis using r None f Inr
          by (auto simp add: call_defs Let_def getCachedSummary_def)
      next
        case (GetValue slot)
        then show ?thesis using r None f Inr
          by (cases ok) (auto simp add: call_defs Let_def getCachedSummary_def)
      qed
    qed
  qed
  then show "getCachedSummary (summaryCache (run (oneCall a opts d (nextCaller s) out g ok) s)) ?key
               = (if v = [] then None else Some v)"
    and "length (backendLog (run (oneCall a opts d (nextCaller s) out g ok) s))
           \<le> length (backendLog s) + 1"
    and "nextCaller (run (oneCall a opts d (nextCaller s) out g ok) s) = Suc (nextCaller s)"
    by simp_all
qed


lemma first_call_returns:
  assumes i: "machineInv s" and o: "outstanding s = []"
    and h: "getCachedSummary (summaryCache s)
              (computeSummaryId (opt_id opts) (emailSubject a) (emailContent a)
                 (Some (strOr (opt_time opts) [])) d) = Some v
          \<or> getCachedSummary (summaryCache s)
              (computeSummaryId (opt_id opts) (emailSubject a) (emailContent a)
                 (Some (strOr (opt_time opts) [])) d) = None
            \<and> handleGeminiResponse out = Inr v"
  shows "callers (run (oneCall a opts d (nextCaller s) out g ok) s) (nextCaller s)
           = Some (Returned (Inr v))"
proof -
  note f = idle_fields[OF i o]
  let ?key = "computeSummaryId (opt_id opts) (emailSubject a) (emailContent a)
              (Some (strOr (opt_time opts) [])) d"
  show ?thesis
  proof (cases "getCachedSummary (summaryCache s) ?key")
    case (Some w)
    then show ?thesis using h f(1,2,3)
      by (auto simp: call_defs Let_def)
  next
    case None
    then have r: "handleGeminiResponse out = Inr v" using h by simp
    show ?thesis
    proof (cases g)
      case GetFailed
      then show ?thesis using None f r
        by (auto simp add: call_defs Let_def)
    next
      case (GetValue slot)
      then show ?thesis using None f r
        by (cases ok) (auto simp add: call_defs Let_def)
    qed
  qed
qed

text \<open>
  C4, as the code has it: a cache entry that is not empty is there to stay, and from
  then on every call with that key returns it when its key arrives, with no new task
  and no backend call; so does every call with the key of a task that has generated
  a summary that is not empty, from the moment the backend has answered; and for
  two calls in sequence, starting with nothing outstanding: when the first call
  takes a text that is not empty from the cache, or its own task generates one (the
  backend call of the task succeeds), the first call returns that text, the second
  call with the same arguments on the same page returns the same text, and the two
  calls together make at most one backend call. (An empty summary is stored but read
  as absent, so it is generated again. A first call whose task fails goes on in the
  \<open>catch\<close> of the wrapper and is not covered here.)
\<close>

theorem summarize_idempotent:
  assumes "reachable s"
  shows "(\<forall>key v es c a.
            summaryCache s key = Some v \<and> v \<noteq> []
              \<and> callers (run es s) c = Some (AwaitKey key a) \<longrightarrow>
            callers (step (KeyReady c) (run es s)) c = Some (Returned (Inr v))
          \<and> backendLog (step (KeyReady c) (run es s)) = backendLog (run es s)
          \<and> outstanding (step (KeyReady c) (run es s)) = outstanding (run es s))
       \<and> (\<forall>task v es c a.
            ((task, StorageGetting v) \<in> set (running s)
               \<or> (\<exists>raw. (task, StorageSetting v raw) \<in> set (running s)))
              \<and> v \<noteq> [] \<and> callers (run es s) c = Some (AwaitKey (t_id task) a) \<longrightarrow>
            callers (step (KeyReady c) (run es s)) c = Some (Returned (Inr v))
          \<and> backendLog (step (KeyReady c) (run es s)) = backendLog (run es s)
          \<and> outstanding (step (KeyReady c) (run es s)) = outstanding (run es s))
       \<and> (\<forall>a opts d out g ok v.
            outstanding s = [] \<and> v \<noteq> []
              \<and> (getCachedSummary (summaryCache s)
                    (computeSummaryId (opt_id opts) (emailSubject a) (emailContent a)
                       (Some (strOr (opt_time opts) [])) d) = Some v
                  \<or> getCachedSummary (summaryCache s)
                      (computeSummaryId (opt_id opts) (emailSubject a) (emailContent a)
                         (Some (strOr (opt_time opts) [])) d) = None
                    \<and> handleGeminiResponse out = Inr v) \<longrightarrow>
            callers (run (oneCall a opts d (nextCaller s) out g ok) s) (nextCaller s)
               = Some (Returned (Inr v))
          \<and> callers (run (oneCall a opts d (nextCaller s) out g ok
                            @ [Call a opts d, KeyReady (Suc (nextCaller s))]) s)
                    (Suc (nextCaller s)) = Some (Returned (Inr v))
          \<and> length (backendLog (run (oneCall a opts d (nextCaller s) out g ok
                            @ [Call a opts d, KeyReady (Suc (nextCaller s))]) s))
               \<le> length (backendLog s) + 1)"
proof (intro conjI allI impI)
  have i: "machineInv s" using assms by (rule reachable_machineInv)
  {
    fix key v es c a
    assume h: "summaryCache s key = Some v \<and> v \<noteq> []
                 \<and> callers (run es s) c = Some (AwaitKey key a)"
    then have cv: "summaryCache (run es s) key = Some v"
      using cache_value_run[OF i] by blast
    note st = hit_step[OF cv, of c a]
    show "callers (step (KeyReady c) (run es s)) c = Some (Returned (Inr v))"
      and "backendLog (step (KeyReady c) (run es s)) = backendLog (run es s)"
      and "outstanding (step (KeyReady c) (run es s)) = outstanding (run es s)"
      using h st by simp_all
  }
  {
    fix task v es c a
    assume h: "((task, StorageGetting v) \<in> set (running s)
                 \<or> (\<exists>raw. (task, StorageSetting v raw) \<in> set (running s)))
               \<and> v \<noteq> [] \<and> callers (run es s) c = Some (AwaitKey (t_id task) a)"
    have ci: "cacheInv s" using i by (simp add: machineInv_def)
    have "summaryCache s (t_id task) = Some v"
      using h ci by (auto simp: cacheInv_def)
    then have cv: "summaryCache (run es s) (t_id task) = Some v"
      using cache_value_run[OF i] h by blast
    note st = hit_step[OF cv, of c a]
    show "callers (step (KeyReady c) (run es s)) c = Some (Returned (Inr v))"
      and "backendLog (step (KeyReady c) (run es s)) = backendLog (run es s)"
      and "outstanding (step (KeyReady c) (run es s)) = outstanding (run es s)"
      using h st by simp_all
  }
  {
    fix a opts d out g ok v
    let ?c = "nextCaller s"
    let ?s1 = "run (oneCall a opts d ?c out g ok) s"
    let ?key = "computeSummaryId (opt_id opts) (emailSubject a) (emailContent a)
                  (Some (strOr (opt_time opts) [])) d"
    assume h: "outstanding s = [] \<and> v \<noteq> []
                 \<and> (getCachedSummary (summaryCache s) ?key = Some v
                     \<or> getCachedSummary (summaryCache s) ?key = None
                       \<and> handleGeminiResponse out = Inr v)"
    then have o: "outstanding s = []" and v: "v \<noteq> []"
      and src: "getCachedSummary (summaryCache s) ?key = Some v
                 \<or> getCachedSummary (summaryCache s) ?key = None
                   \<and> handleGeminiResponse out = Inr v"
      by simp_all
    show r: "callers ?s1 ?c = Some (Returned (Inr v))"
      using i o src by (rule first_call_returns)
    note fc = first_call_alone[OF i o r]
    have cv: "summaryCache ?s1 ?key = Some v"
      using fc(1) v by (auto simp: getCachedSummary_def split: option.splits if_splits)
    let ?s2 = "step (Call a opts d) ?s1"
    have k2: "callers ?s2 (Suc ?c) = Some (AwaitKey ?key a)"
      and c2: "summaryCache ?s2 ?key = Some v"
      and b2: "backendLog ?s2 = backendLog ?s1"
      using cv fc(3) by (simp_all add: step_def summarize_call_def Let_def)
    have r2: "run (oneCall a opts d ?c out g ok @ [Call a opts d, KeyReady (Suc ?c)]) s
                = step (KeyReady (Suc ?c)) ?s2"
      by (simp add: run_def)
    show "callers (run (oneCall a opts d ?c out g ok @ [Call a opts d, KeyReady (Suc ?c)]) s)
            (Suc ?c) = Some (Returned (Inr v))"
      unfolding r2 hit_step[OF c2 v k2] by simp
    show "length (backendLog (run (oneCall a opts d ?c out g ok
                   @ [Call a opts d, KeyReady (Suc ?c)]) s)) \<le> length (backendLog s) + 1"
      unfolding r2 hit_step[OF c2 v k2] using fc(2) b2 by simp
  }
qed

theorem summarize_idempotent_witness:
  "reachable (run (callToEnd 0 ''sum'') fresh)
   \<and> summaryCache (run (callToEnd 0 ''sum'') fresh) ''mid:a'' = Some ''sum''
   \<and> callers (run [Call mailA (withId ''mid:a'') emptyPage] (run (callToEnd 0 ''sum'') fresh)) 1
        = Some (AwaitKey ''mid:a'' mailA)
   \<and> callers (step (KeyReady 1)
         (run [Call mailA (withId ''mid:a'') emptyPage] (run (callToEnd 0 ''sum'') fresh))) 1
        = Some (Returned (Inr ''sum''))
   \<and> reachable persisting
   \<and> (\<lparr> t_id = ''mid:a'', t_args = mailA, t_promise = 0 \<rparr>,
        StorageSetting ''sum'' [''mid:a'' \<mapsto> ''sum'']) \<in> set (running persisting)
   \<and> callers (run [Call mailA (withId ''mid:a'') emptyPage] persisting) 2
        = Some (AwaitKey ''mid:a'' mailA)
   \<and> callers (step (KeyReady 2) (run [Call mailA (withId ''mid:a'') emptyPage] persisting)) 2
        = Some (Returned (Inr ''sum''))
   \<and> backendLog (step (KeyReady 2) (run [Call mailA (withId ''mid:a'') emptyPage] persisting))
        = [generateEmailSummary_request mailA]
   \<and> reachable fresh \<and> outstanding fresh = [] \<and> nextCaller fresh = 0
   \<and> getCachedSummary (summaryCache fresh)
         (computeSummaryId (opt_id (withId ''mid:a'')) (emailSubject mailA) (emailContent mailA)
            (Some (strOr (opt_time (withId ''mid:a'')) [])) emptyPage) = None
   \<and> handleGeminiResponse (okResponse ''sum'') = Inr ''sum''
   \<and> callers (run (oneCall mailA (withId ''mid:a'') emptyPage 0 (okResponse ''sum'')
                      (GetValue None) True) fresh) 0 = Some (Returned (Inr ''sum''))
   \<and> callers (run (oneCall mailA (withId ''mid:a'') emptyPage 0 (okResponse ''sum'')
                      (GetValue None) True
                    @ [Call mailA (withId ''mid:a'') emptyPage, KeyReady 1]) fresh) 1
        = Some (Returned (Inr ''sum''))
   \<and> length (backendLog (run (oneCall mailA (withId ''mid:a'') emptyPage 0 (okResponse ''sum'')
                      (GetValue None) True
                    @ [Call mailA (withId ''mid:a'') emptyPage, KeyReady 1]) fresh)) \<le> 1"
proof -
  have r1: "reachable (run (callToEnd 0 ''sum'') fresh)" by (rule reachable_fresh_run)
  have r2: "reachable fresh" using reachable_fresh_run[of "[]"] by (simp add: run_def)
  have h1: "summaryCache (run (callToEnd 0 ''sum'') fresh) ''mid:a'' = Some ''sum'' \<and> ''sum'' \<noteq> []
      \<and> callers (run [Call mailA (withId ''mid:a'') emptyPage] (run (callToEnd 0 ''sum'') fresh)) 1
        = Some (AwaitKey ''mid:a'' mailA)"
    by (simp add: run_defs)
  have k: "getCachedSummary (summaryCache fresh)
         (computeSummaryId (opt_id (withId ''mid:a'')) (emailSubject mailA) (emailContent mailA)
            (Some (strOr (opt_time (withId ''mid:a'')) [])) emptyPage) = None"
    and g: "handleGeminiResponse (okResponse ''sum'') = Inr ''sum''"
    and o: "outstanding fresh = []"
    by (simp_all add: run_defs outstanding_def)
  have h2: "outstanding fresh = [] \<and> ''sum'' \<noteq> []
      \<and> (getCachedSummary (summaryCache fresh)
           (computeSummaryId (opt_id (withId ''mid:a'')) (emailSubject mailA) (emailContent mailA)
              (Some (strOr (opt_time (withId ''mid:a'')) [])) emptyPage) = Some ''sum''
          \<or> getCachedSummary (summaryCache fresh)
           (computeSummaryId (opt_id (withId ''mid:a'')) (emailSubject mailA) (emailContent mailA)
              (Some (strOr (opt_time (withId ''mid:a'')) [])) emptyPage) = None
            \<and> handleGeminiResponse (okResponse ''sum'') = Inr ''sum'')"
    using k g o by simp
  have n: "nextCaller fresh = 0" "backendLog fresh = []" by (simp_all add: fresh_def initial_def)
  let ?t = "\<lparr> t_id = ''mid:a'', t_args = mailA, t_promise = 0 \<rparr>"
  have r3: "reachable persisting" unfolding persisting_def by (rule reachable_fresh_run)
  have p1: "(?t, StorageSetting ''sum'' [''mid:a'' \<mapsto> ''sum'']) \<in> set (running persisting)"
    and p2: "callers (run [Call mailA (withId ''mid:a'') emptyPage] persisting) 2
               = Some (AwaitKey ''mid:a'' mailA)"
    and p3: "backendLog (run [Call mailA (withId ''mid:a'') emptyPage] persisting)
               = [generateEmailSummary_request mailA]"
    by (simp_all add: persisting_def run_defs)
  have h3: "((?t, StorageGetting ''sum'') \<in> set (running persisting)
              \<or> (\<exists>raw. (?t, StorageSetting ''sum'' raw) \<in> set (running persisting)))
            \<and> ''sum'' \<noteq> []
            \<and> callers (run [Call mailA (withId ''mid:a'') emptyPage] persisting) 2
                 = Some (AwaitKey (t_id ?t) mailA)"
    using p1 p2 by auto
  show ?thesis
    using summarize_idempotent[OF r1, THEN conjunct1, rule_format, OF h1]
          summarize_idempotent[OF r3, THEN conjunct2, THEN conjunct1, rule_format, OF h3]
          summarize_idempotent[OF r2, THEN conjunct2, THEN conjunct2, rule_format, OF h2]
          h1 k g o r1 r2 r3 p1 p2 p3 n
    by simp
qed

text \<open>
  C4 as stated fails. The backend answers the first call with a blank text: the
  summary is the empty string, the cache holds it under the key, and the second call
  in sequence calls the backend again and returns another text. And when the backend
  call of the first task fails and the call the wrapper then makes in its
  \<open>catch\<close> succeeds, the first call returns a text that is nowhere in the cache, and
  the second call generates another one: three backend calls.
\<close>

theorem summarize_twice_calls_twice_on_empty_summary:
  "summaryCache (run (callToEnd 0 '' '') fresh) ''mid:a'' = Some []
   \<and> callers (run (callToEnd 0 '' '' @ callToEnd 1 ''x'') fresh) 0 = Some (Returned (Inr []))
   \<and> callers (run (callToEnd 0 '' '' @ callToEnd 1 ''x'') fresh) 1 = Some (Returned (Inr ''x''))
   \<and> length (backendLog (run (callToEnd 0 '' '' @ callToEnd 1 ''x'') fresh)) = 2
   \<and> callers (run firstCallFallsBack fresh) 0 = Some (Returned (Inr ''x''))
   \<and> summaryCache (run firstCallFallsBack fresh) ''mid:a'' = None
   \<and> callers (run (firstCallFallsBack @ callToEnd 1 ''y'') fresh) 0 = Some (Returned (Inr ''x''))
   \<and> callers (run (firstCallFallsBack @ callToEnd 1 ''y'') fresh) 1 = Some (Returned (Inr ''y''))
   \<and> length (backendLog (run (firstCallFallsBack @ callToEnd 1 ''y'') fresh)) = 3"
  by (simp add: run_defs firstCallFallsBack_def)

lemma loadSummaryCache_total: "\<exists>c. loadSummaryCache r = Inr c"
  by (cases r) (auto simp: loadSummaryCache_def loadSummaryCache_try_def split: sum.splits)

lemma resumed_own_success:
  "resumed (Inr v) (Some (AwaitOwn key a)) = Some (Returned (Inr v))"
  by (simp add: resumed_def)

lemma resume_returns_to_owner:
  assumes i: "machineInv s" and r: "(task, ph) \<in> set (running s)"
  shows "callers (processSummaryQueue_resume task (Inr v) s) (t_promise task)
           = Some (Returned (Inr v))"
proof -
  have f: "flightInv s" using i by (simp add: machineInv_def)
  have o: "task \<in> set (outstanding s)" using r by (force simp: outstanding_def)
  have "callers s (t_promise task) = Some (AwaitOwn (t_id task) (t_args task))"
    and "t_promise task \<in> set (reactions s (t_promise task))"
    using f o by (auto simp: flightInv_def)
  then show ?thesis by (simp add: callers_resume resumed_own_success)
qed

subsection \<open>Nothing reads the storage object\<close>

lemma sameInMemory_refl [simp]: "sameInMemory s s"
  by (simp add: sameInMemory_def)

lemma sameInMemory_persisted [simp]:
  "sameInMemory (s\<lparr>persisted := x\<rparr>) s' = sameInMemory s s'"
  "sameInMemory s (s'\<lparr>persisted := x\<rparr>) = sameInMemory s s'"
  by (simp_all add: sameInMemory_def)

lemma sameInMemory_trans: "sameInMemory s s' \<Longrightarrow> sameInMemory s' s'' \<Longrightarrow> sameInMemory s s''"
  by (simp add: sameInMemory_def)

lemma same_processSummaryQueue:
  "sameInMemory s s' \<Longrightarrow> sameInMemory (processSummaryQueue s) (processSummaryQueue s')"
  by (simp add: sameInMemory_def processSummaryQueue_def split: list.splits)

lemma same_enqueueSummaryTask:
  "sameInMemory s s' \<Longrightarrow> sameInMemory (enqueueSummaryTask t s) (enqueueSummaryTask t s')"
  unfolding enqueueSummaryTask_def
  by (rule same_processSummaryQueue) (simp add: sameInMemory_def)

lemma same_resumeCaller:
  "sameInMemory s s' \<Longrightarrow> sameInMemory (resumeCaller outcome c s) (resumeCaller outcome c s')"
  by (simp add: sameInMemory_def callers_resumeCaller inFlight_resumeCaller)
     (simp add: resumeCaller_def afterTask_def fallbackCall_def
        split: option.splits caller.splits sum.splits)

lemma same_fold_resume:
  "sameInMemory s s' \<Longrightarrow>
   sameInMemory (fold (resumeCaller outcome) cs s) (fold (resumeCaller outcome) cs s')"
  by (induction cs arbitrary: s s') (simp_all add: same_resumeCaller)

lemma same_settlePromise:
  "sameInMemory s s' \<Longrightarrow> sameInMemory (settlePromise p outcome s) (settlePromise p outcome s')"
proof -
  assume h: "sameInMemory s s'"
  then have r: "reactions s p = reactions s' p" by (simp add: sameInMemory_def)
  have "sameInMemory (s\<lparr>reactions := (reactions s)(p := [])\<rparr>)
                     (s'\<lparr>reactions := (reactions s')(p := [])\<rparr>)"
    using h by (simp add: sameInMemory_def)
  then show ?thesis unfolding settlePromise_def r by (rule same_fold_resume)
qed

lemma same_resume:
  assumes h: "sameInMemory s s'"
  shows "sameInMemory (processSummaryQueue_resume task outcome s)
                      (processSummaryQueue_resume task outcome s')"
proof -
  let ?u = "\<lambda>s. s\<lparr> running := filter (\<lambda>(t, ph). t_promise t \<noteq> t_promise task) (running s),
                  effects := effects s @ [TaskSettled (t_promise task) (succeeded outcome)],
                  isProcessingSummaryQueue := False \<rparr>"
  have 1: "sameInMemory (?u s) (?u s')" using h by (simp add: sameInMemory_def)
  have q: "summaryQueue s = summaryQueue s'" using h by (simp add: sameInMemory_def)
  have 2: "sameInMemory (if summaryQueue (?u s) \<noteq> [] then processSummaryQueue (?u s) else ?u s)
                        (if summaryQueue (?u s') \<noteq> [] then processSummaryQueue (?u s') else ?u s')"
    using 1 same_processSummaryQueue[OF 1] q by simp
  show ?thesis
    unfolding processSummaryQueue_resume_def Let_def by (rule same_settlePromise[OF 2])
qed

lemma same_setPhase: "sameInMemory s s' \<Longrightarrow> sameInMemory (setPhase p ph s) (setPhase p ph s')"
  by (simp add: sameInMemory_def setPhase_def)

lemma same_activation: "sameInMemory s s' \<Longrightarrow> activation s p = activation s' p"
  by (simp add: sameInMemory_def activation_def)

lemma same_step:
  assumes h: "sameInMemory s s'"
  shows "sameInMemory (step e s) (step e s')"
proof (cases e)
  case (Call a opts d)
  then show ?thesis using h by (simp add: step_def summarize_call_def Let_def sameInMemory_def)
next
  case (KeyReady c)
  have f: "callers s c = callers s' c" "summaryCache s = summaryCache s'"
    "inFlightSummaries s = inFlightSummaries s'" "reactions s = reactions s'"
    "callers s = callers s'"
    using h by (simp_all add: sameInMemory_def)
  have k: "sameInMemory (summarize_afterKey c key a s) (summarize_afterKey c key a s')" for key a
  proof (cases "getCachedSummary (summaryCache s') key")
    case (Some v)
    then show ?thesis using h f by (simp add: summarize_afterKey_def sameInMemory_def)
  next
    case None
    show ?thesis
    proof (cases "inFlightSummaries s' key")
      case (Some p)
      then show ?thesis using None h f by (simp add: summarize_afterKey_def sameInMemory_def)
    next
      case None': None
      let ?t = "\<lparr> t_id = key, t_args = a, t_promise = c \<rparr>"
      have e: "sameInMemory (enqueueSummaryTask ?t s) (enqueueSummaryTask ?t s')"
        using h by (rule same_enqueueSummaryTask)
      show ?thesis using None None' f e
        by (simp add: summarize_afterKey_def Let_def) (simp add: sameInMemory_def)
    qed
  qed
  show ?thesis using KeyReady f(1) k h
    by (simp add: step_def split: option.splits caller.splits)
next
  case (TaskFetchDone p out)
  have c: "sameInMemory (s\<lparr>summaryCache := x\<rparr>) (s'\<lparr>summaryCache := x'\<rparr>)" if "x = x'" for x x'
    using h that by (simp add: sameInMemory_def)
  have cs: "summaryCache s = summaryCache s'" using h by (simp add: sameInMemory_def)
  show ?thesis using TaskFetchDone same_activation[OF h, of p] h
    by (simp add: step_def runFn_afterFetch_def same_resume[OF h] same_setPhase c cs
          split: option.splits phase.splits sum.splits)
next
  case (StorageGetDone p r)
  then show ?thesis using same_activation[OF h, of p] h
    by (simp add: step_def setCachedSummary_afterGet_def Let_def same_resume[OF h]
          same_setPhase[OF h] split: option.splits phase.splits storageGet.splits)
next
  case (StorageSetDone p ok)
  have "sameInMemory (if ok then s\<lparr>persisted := x\<rparr> else s) (if ok then s'\<lparr>persisted := x\<rparr> else s')"
    for x using h by simp
  then show ?thesis using StorageSetDone same_activation[OF h, of p] h
    by (simp add: step_def setCachedSummary_afterSet_def same_resume
          split: option.splits phase.splits)
next
  case (FallbackFetchDone c out)
  have f: "callers s c = callers s' c" using h by (simp add: sameInMemory_def)
  show ?thesis using FallbackFetchDone f h
    by (simp add: step_def split: option.splits caller.splits) (simp add: sameInMemory_def)
qed

lemma same_run: "sameInMemory s s' \<Longrightarrow> sameInMemory (run es s) (run es s')"
  unfolding run_def by (induction es arbitrary: s s') (simp_all add: same_step)

lemma write_outcome_is_invisible:
  "sameInMemory (step (StorageSetDone p False) s) (step (StorageSetDone p True) s)"
proof -
  have "sameInMemory (processSummaryQueue_resume task outcome s)
                     (processSummaryQueue_resume task outcome (s\<lparr>persisted := x\<rparr>))" for task outcome x
    by (rule same_resume) simp
  then show ?thesis
    by (simp add: step_def setCachedSummary_afterSet_def split: option.splits phase.splits)
qed

lemma resume_setPhase:
  "processSummaryQueue_resume task outcome (setPhase (t_promise task) ph s)
     = processSummaryQueue_resume task outcome s"
proof -
  have f: "filter (\<lambda>(t, ph). t_promise t \<noteq> t_promise task)
             (map (\<lambda>(t, ph'). if t_promise t = t_promise task then (t, ph) else (t, ph')) rs)
           = filter (\<lambda>(t, ph). t_promise t \<noteq> t_promise task) rs"
    for rs :: "(task \<times> phase) list"
    by (induction rs) auto
  show ?thesis
    by (simp add: processSummaryQueue_resume_def Let_def setPhase_def f)
qed

lemma activation_setPhase:
  "activation s p = Some (task, ph0) \<Longrightarrow> activation (setPhase p ph s) p = Some (task, ph)"
proof -
  have "find (\<lambda>(t, ph). t_promise t = p) rs = Some (task, ph0) \<Longrightarrow>
        find (\<lambda>(t, ph). t_promise t = p)
          (map (\<lambda>(t, ph'). if t_promise t = p then (t, ph) else (t, ph')) rs) = Some (task, ph)"
    for rs :: "(task \<times> phase) list"
    by (induction rs) (auto split: if_splits)
  then show "activation s p = Some (task, ph0) \<Longrightarrow> activation (setPhase p ph s) p = Some (task, ph)"
    by (simp add: activation_def setPhase_def)
qed

lemma read_outcome_is_invisible:
  assumes a: "activation s p = Some (task, StorageGetting v)"
  shows "sameInMemory (step (StorageGetDone p GetFailed) s)
           (run [StorageGetDone p (GetValue slot), StorageSetDone p ok] s)"
proof -
  have p: "t_promise task = p" using a by (rule activation_promise)
  let ?raw = "(case slot of None \<Rightarrow> Map.empty | Some obj \<Rightarrow> obj)(t_id task \<mapsto> v)"
  let ?s1 = "setPhase p (StorageSetting v ?raw) s"
  have 1: "step (StorageGetDone p (GetValue slot)) s = ?s1"
    using a p by (simp add: step_def setCachedSummary_afterGet_def Let_def)
  have 2: "activation ?s1 p = Some (task, StorageSetting v ?raw)"
    using a by (rule activation_setPhase)
  have 3: "step (StorageSetDone p ok) ?s1
             = processSummaryQueue_resume task (Inr v) (if ok then ?s1\<lparr>persisted := Some ?raw\<rparr> else ?s1)"
    using 2 by (simp add: step_def setCachedSummary_afterSet_def)
  have "sameInMemory (processSummaryQueue_resume task (Inr v) ?s1)
          (processSummaryQueue_resume task (Inr v) (if ok then ?s1\<lparr>persisted := Some ?raw\<rparr> else ?s1))"
    by (rule same_resume) simp
  then have 4: "sameInMemory (processSummaryQueue_resume task (Inr v) s) (step (StorageSetDone p ok) ?s1)"
    unfolding 3 using resume_setPhase[of task "Inr v" "StorageSetting v ?raw" s] p by simp
  have 5: "step (StorageGetDone p GetFailed) s = processSummaryQueue_resume task (Inr v) s"
    using a by (simp add: step_def setCachedSummary_afterGet_def)
  show ?thesis unfolding 5 using 4 1 by (simp add: run_def)
qed

text \<open>
  C9, as the code has it: loading the cache never fails, and a missing or unreadable
  slot gives the empty cache. A failed storage write leaves the machine, but for the
  stored object, in the state a successful write leaves it in, and a failed storage
  read in the state a successful read and write leave it in; so whatever follows,
  the in-memory cache and what every caller receives are what they would have been
  with a storage that works. In every state the machine reaches: when the backend
  answers a task with a summary, the summary is in the in-memory cache before
  anything is persisted; when the storage read or the storage write then fails, the
  entry is still there and the caller of the task returns the summary; no outcome of
  the storage changes the in-memory cache; no key ever leaves it; and an entry that
  is not empty keeps its value in every continuation of the run. (An entry that is
  the empty string is read as absent and replaced by the next call for its key.)
\<close>

theorem storage_failure_is_not_fatal:
  "loadSummaryCache GetFailed = Inr Map.empty
   \<and> loadSummaryCache (GetValue None) = Inr Map.empty
   \<and> (\<exists>c. loadSummaryCache r = Inr c)
   \<and> (\<forall>p es. sameInMemory (run es (step (StorageSetDone p False) s))
                            (run es (step (StorageSetDone p True) s)))
   \<and> (\<forall>p task v slot ok es. activation s p = Some (task, StorageGetting v) \<longrightarrow>
          sameInMemory (run es (step (StorageGetDone p GetFailed) s))
            (run es (run [StorageGetDone p (GetValue slot), StorageSetDone p ok] s)))
   \<and> (reachable s \<longrightarrow>
        (\<forall>task out v. (task, Fetching) \<in> set (running s) \<and> handleGeminiResponse out = Inr v \<longrightarrow>
            summaryCache (step (TaskFetchDone (t_promise task) out) s) (t_id task) = Some v
          \<and> running (step (TaskFetchDone (t_promise task) out) s) = [(task, StorageGetting v)])
      \<and> (\<forall>task v. (task, StorageGetting v) \<in> set (running s) \<longrightarrow>
            summaryCache (step (StorageGetDone (t_promise task) GetFailed) s) (t_id task) = Some v
          \<and> callers (step (StorageGetDone (t_promise task) GetFailed) s) (t_promise task)
              = Some (Returned (Inr v)))
      \<and> (\<forall>task v raw. (task, StorageSetting v raw) \<in> set (running s) \<longrightarrow>
            summaryCache (step (StorageSetDone (t_promise task) False) s) (t_id task) = Some v
          \<and> callers (step (StorageSetDone (t_promise task) False) s) (t_promise task)
              = Some (Returned (Inr v)))
      \<and> (\<forall>p g. summaryCache (step (StorageGetDone p g) s) = summaryCache s)
      \<and> (\<forall>p ok. summaryCache (step (StorageSetDone p ok) s) = summaryCache s)
      \<and> (\<forall>k es. k \<in> dom (summaryCache s) \<longrightarrow> k \<in> dom (summaryCache (run es s)))
      \<and> (\<forall>k v es. summaryCache s k = Some v \<and> v \<noteq> [] \<longrightarrow>
            summaryCache (run es s) k = Some v))"
proof (intro conjI impI)
  show "loadSummaryCache GetFailed = Inr Map.empty"
    and "loadSummaryCache (GetValue None) = Inr Map.empty"
    by (simp_all add: loadSummaryCache_def loadSummaryCache_try_def)
  show "\<exists>c. loadSummaryCache r = Inr c" by (rule loadSummaryCache_total)
  show "\<forall>p es. sameInMemory (run es (step (StorageSetDone p False) s))
                            (run es (step (StorageSetDone p True) s))"
    by (intro allI same_run write_outcome_is_invisible)
  show "\<forall>p task v slot ok es. activation s p = Some (task, StorageGetting v) \<longrightarrow>
          sameInMemory (run es (step (StorageGetDone p GetFailed) s))
            (run es (run [StorageGetDone p (GetValue slot), StorageSetDone p ok] s))"
    by (intro allI impI same_run read_outcome_is_invisible)
next
  assume "reachable s"
  then have i: "machineInv s" by (rule reachable_machineInv)
  then have q: "queueInv s" and ci: "cacheInv s" by (simp_all add: machineInv_def)
  have act: "activation s (t_promise task) = Some (task, ph)"
    and ok: "phaseOk (summaryCache s) (task, ph)"
    if "(task, ph) \<in> set (running s)" for task ph
    using queueInv_running_single[OF q that] activation_single ci that
    by (auto simp: cacheInv_def)
  show "\<forall>task out v. (task, Fetching) \<in> set (running s) \<and> handleGeminiResponse out = Inr v \<longrightarrow>
            summaryCache (step (TaskFetchDone (t_promise task) out) s) (t_id task) = Some v
          \<and> running (step (TaskFetchDone (t_promise task) out) s) = [(task, StorageGetting v)]"
  proof (intro allI impI)
    fix task out v
    assume h: "(task, Fetching) \<in> set (running s) \<and> handleGeminiResponse out = Inr v"
    then have r: "running s = [(task, Fetching)]" using queueInv_running_single[OF q] by blast
    show "summaryCache (step (TaskFetchDone (t_promise task) out) s) (t_id task) = Some v
          \<and> running (step (TaskFetchDone (t_promise task) out) s) = [(task, StorageGetting v)]"
      using h act[of task Fetching] r
      by (simp add: step_def runFn_afterFetch_def setPhase_def)
  qed
  show "\<forall>task v. (task, StorageGetting v) \<in> set (running s) \<longrightarrow>
            summaryCache (step (StorageGetDone (t_promise task) GetFailed) s) (t_id task) = Some v
          \<and> callers (step (StorageGetDone (t_promise task) GetFailed) s) (t_promise task)
              = Some (Returned (Inr v))"
  proof (intro allI impI)
    fix task v
    assume h: "(task, StorageGetting v) \<in> set (running s)"
    show "summaryCache (step (StorageGetDone (t_promise task) GetFailed) s) (t_id task) = Some v
          \<and> callers (step (StorageGetDone (t_promise task) GetFailed) s) (t_promise task)
              = Some (Returned (Inr v))"
      using act[OF h] ok[OF h] resume_returns_to_owner[OF i h, of v]
      by (simp add: step_def setCachedSummary_afterGet_def)
  qed
  show "\<forall>task v raw. (task, StorageSetting v raw) \<in> set (running s) \<longrightarrow>
            summaryCache (step (StorageSetDone (t_promise task) False) s) (t_id task) = Some v
          \<and> callers (step (StorageSetDone (t_promise task) False) s) (t_promise task)
              = Some (Returned (Inr v))"
  proof (intro allI impI)
    fix task v raw
    assume h: "(task, StorageSetting v raw) \<in> set (running s)"
    show "summaryCache (step (StorageSetDone (t_promise task) False) s) (t_id task) = Some v
          \<and> callers (step (StorageSetDone (t_promise task) False) s) (t_promise task)
              = Some (Returned (Inr v))"
      using act[OF h] ok[OF h] resume_returns_to_owner[OF i h, of v]
      by (simp add: step_def setCachedSummary_afterSet_def)
  qed
  show "\<forall>p g. summaryCache (step (StorageGetDone p g) s) = summaryCache s"
    and "\<forall>p ok. summaryCache (step (StorageSetDone p ok) s) = summaryCache s"
    by (simp_all add: cache_step)
  show "\<forall>k es. k \<in> dom (summaryCache s) \<longrightarrow> k \<in> dom (summaryCache (run es s))"
    using cache_dom_run by blast
  show "\<forall>k v es. summaryCache s k = Some v \<and> v \<noteq> [] \<longrightarrow> summaryCache (run es s) k = Some v"
    using cache_value_run[OF i] by blast
qed

theorem storage_failure_is_not_fatal_witness:
  "reachable fetched
   \<and> running fetched
       = [(\<lparr> t_id = ''mid:a'', t_args = mailA, t_promise = 0 \<rparr>, StorageGetting ''sum'')]
   \<and> summaryCache (step (StorageGetDone 0 GetFailed) fetched) ''mid:a'' = Some ''sum''
   \<and> callers (step (StorageGetDone 0 GetFailed) fetched) 0 = Some (Returned (Inr ''sum''))
   \<and> persisted (step (StorageGetDone 0 GetFailed) fetched) = None
   \<and> reachable persisting
   \<and> running persisting
       = [(\<lparr> t_id = ''mid:a'', t_args = mailA, t_promise = 0 \<rparr>,
           StorageSetting ''sum'' [''mid:a'' \<mapsto> ''sum''])]
   \<and> summaryCache (step (StorageSetDone 0 False) persisting) ''mid:a'' = Some ''sum''
   \<and> callers (step (StorageSetDone 0 False) persisting) 0 = Some (Returned (Inr ''sum''))
   \<and> ''sum'' \<noteq> []
   \<and> summaryCache (run (callToEnd 2 ''other'')
        (step (StorageSetDone 0 False) persisting)) ''mid:a'' = Some ''sum''
   \<and> activation fetched 0
       = Some (\<lparr> t_id = ''mid:a'', t_args = mailA, t_promise = 0 \<rparr>, StorageGetting ''sum'')
   \<and> sameInMemory (run (callToEnd 2 ''other'') (step (StorageGetDone 0 GetFailed) fetched))
        (run (callToEnd 2 ''other'')
           (run [StorageGetDone 0 (GetValue None), StorageSetDone 0 True] fetched))"
proof -
  have r1: "reachable fetched" and r2: "reachable persisting"
    unfolding fetched_def persisting_def by (rule reachable_fresh_run)+
  have r3: "reachable (step (StorageSetDone 0 False) persisting)"
    using r2 by (rule reachable_step)
  let ?t = "\<lparr> t_id = ''mid:a'', t_args = mailA, t_promise = 0 \<rparr>"
  have f1: "running fetched = [(?t, StorageGetting ''sum'')]"
    and f2: "persisted fetched = None"
    by (simp_all add: fetched_def run_defs)
  have p1: "running persisting = [(?t, StorageSetting ''sum'' [''mid:a'' \<mapsto> ''sum''])]"
    by (simp add: persisting_def run_defs)
  have m1: "(?t, StorageGetting ''sum'') \<in> set (running fetched)" using f1 by simp
  have m2: "(?t, StorageSetting ''sum'' [''mid:a'' \<mapsto> ''sum'']) \<in> set (running persisting)"
    using p1 by simp
  note t1 = storage_failure_is_not_fatal[of GetFailed fetched, THEN conjunct2, THEN conjunct2,
              THEN conjunct2, THEN conjunct2]
  note w1 = t1[THEN conjunct2, rule_format, OF r1]
  note w2 = storage_failure_is_not_fatal[of GetFailed persisting, THEN conjunct2, THEN conjunct2,
              THEN conjunct2, THEN conjunct2, THEN conjunct2, rule_format, OF r2]
  note w3 = storage_failure_is_not_fatal[of GetFailed "step (StorageSetDone 0 False) persisting",
              THEN conjunct2, THEN conjunct2, THEN conjunct2, THEN conjunct2, THEN conjunct2,
              rule_format, OF r3]
  have act: "activation fetched 0 = Some (?t, StorageGetting ''sum'')"
    using f1 by (simp add: activation_def)
  have e: "sameInMemory (run (callToEnd 2 ''other'') (step (StorageGetDone 0 GetFailed) fetched))
        (run (callToEnd 2 ''other'')
           (run [StorageGetDone 0 (GetValue None), StorageSetDone 0 True] fetched))"
    using t1[THEN conjunct1, rule_format, OF act] .
  have a: "summaryCache (step (StorageGetDone 0 GetFailed) fetched) ''mid:a'' = Some ''sum''
        \<and> callers (step (StorageGetDone 0 GetFailed) fetched) 0 = Some (Returned (Inr ''sum''))"
    using w1[THEN conjunct2, THEN conjunct1, rule_format, OF m1] by simp
  have b: "summaryCache (step (StorageSetDone 0 False) persisting) ''mid:a'' = Some ''sum''
        \<and> callers (step (StorageSetDone 0 False) persisting) 0 = Some (Returned (Inr ''sum''))"
    using w2[THEN conjunct2, THEN conjunct2, THEN conjunct1, rule_format, OF m2] by simp
  have c: "summaryCache (run (callToEnd 2 ''other'')
        (step (StorageSetDone 0 False) persisting)) ''mid:a'' = Some ''sum''"
    using w3[THEN conjunct2, THEN conjunct2, THEN conjunct2, THEN conjunct2, THEN conjunct2,
             THEN conjunct2, rule_format, of "''mid:a''" "''sum''" "callToEnd 2 ''other''"] b
    by simp
  have d: "persisted (step (StorageGetDone 0 GetFailed) fetched) = None"
    by (simp add: fetched_def run_defs)
  show ?thesis using r1 r2 f1 p1 a b c d act e by simp
qed

text \<open>
  C9 as stated fails: the backend answers with a blank text, the summary is the empty
  string, and the storage write fails. The call returns the summary and the pair is
  in the in-memory cache, but it does not remain there: the next call for the key
  generates a new summary, which takes its place.
\<close>

theorem blank_summary_does_not_remain_after_failed_write:
  "summaryCache (run blankNotPersisted fresh) ''mid:a'' = Some []
   \<and> callers (run blankNotPersisted fresh) 0 = Some (Returned (Inr []))
   \<and> persisted (run blankNotPersisted fresh) = None
   \<and> summaryCache (run (blankNotPersisted @ callToEnd 1 ''x'') fresh) ''mid:a'' = Some ''x''"
  by (simp add: run_defs blankNotPersisted_def)






end
